theory Spec2Isabelle
  imports Main
begin

section \<open>within: run a command in several directories\<close>

text \<open>
  The repository holds two revisions of the program. \<^verbatim>\<open>src/within.c\<close> is built on a
  kqueue event loop; \<^verbatim>\<open>src/unnamed/part_002\<close> is the same program ported to
  \<^verbatim>\<open>select()\<close> (its header says that kqueue was used originally). Definitions taken
  from the kqueue revision end in \<open>_kqueue\<close>, those of the select revision in
  \<open>_select\<close>; code that is the same text in both files is modelled once.

  The parent process is modelled; of a child, what \<^verbatim>\<open>start_job\<close> makes it do: the
  directory it changes to and the command it executes. System calls and the C library
  are the environment: every result the program reads from them is an input of the
  model.
\<close>

subsection \<open>Process termination\<close>

text \<open>
  \<^verbatim>\<open>err(1, ...)\<close>, \<^verbatim>\<open>errx(1, ...)\<close>, \<^verbatim>\<open>usage()\<close> and \<^verbatim>\<open>exit(1)\<close> end the process at
  once. The model returns \<open>Inl (Halt code message)\<close> for them.
\<close>

datatype halt = Halt (exit_code: int) (message: string)

subsection \<open>\<^verbatim>\<open>strtol(optarg, NULL, 10)\<close> and the cast to \<^verbatim>\<open>int\<close>\<close>

text \<open>
  The C library's \<^verbatim>\<open>strtol\<close> in base 10, as ISO C describes it: white space is
  skipped, one sign is read, then the longest run of decimal digits; what follows the
  digits is ignored (the program passes \<^verbatim>\<open>NULL\<close> for \<^verbatim>\<open>endptr\<close>); without digits the
  result is 0; a value out of the range of \<^verbatim>\<open>long\<close> is clamped. \<^verbatim>\<open>long\<close> has 64 bits
  and \<^verbatim>\<open>int\<close> 32 (LP64, the data model of the BSDs, macOS and Linux on 64-bit
  machines); the cast keeps the low 32 bits in two's complement.
\<close>

definition isspace :: "char \<Rightarrow> bool" where
  "isspace c \<longleftrightarrow>
     c \<in> set [CHR '' '', CHR 0x09, CHR 0x0A, CHR 0x0B, CHR 0x0C, CHR 0x0D]"

definition isdigit :: "char \<Rightarrow> bool" where
  "isdigit c \<longleftrightarrow> (48::int) \<le> of_char c \<and> of_char c \<le> (57::int)"

definition digit_val :: "char \<Rightarrow> int" where
  "digit_val c = of_char c - 48"

fun strtol_digits :: "int \<Rightarrow> string \<Rightarrow> int" where
  "strtol_digits acc [] = acc"
| "strtol_digits acc (c # cs) =
     (if isdigit c then strtol_digits (acc * 10 + digit_val c) cs else acc)"

definition LONG_MAX :: int where
  "LONG_MAX = 9223372036854775807"

definition LONG_MIN :: int where
  "LONG_MIN = - 9223372036854775808"

definition INT_MAX :: int where
  "INT_MAX = 2147483647"

fun strtol_sign :: "string \<Rightarrow> bool \<times> string" where
  "strtol_sign [] = (False, [])"
| "strtol_sign (c # cs) =
     (if c = CHR ''-'' then (True, cs)
      else if c = CHR ''+'' then (False, cs)
      else (False, c # cs))"

definition strtol :: "string \<Rightarrow> int" where
  "strtol s =
     (let (neg, ds) = strtol_sign (dropWhile isspace s);
          v = strtol_digits 0 ds
      in if neg then max LONG_MIN (- v) else min LONG_MAX v)"

definition int_of_long :: "int \<Rightarrow> int" where
  "int_of_long v = (v + 2147483648) mod 4294967296 - 2147483648"

subsection \<open>\<^verbatim>\<open>parse_options\<close>\<close>

record options =
  max_jobs :: int
  directories :: "string list"
  command :: "string list"

text \<open>\<^verbatim>\<open>usage()\<close> prints the usage line and calls \<^verbatim>\<open>exit(1)\<close>.\<close>

definition usage :: "halt + 'a" where
  "usage = Inl (Halt 1 ''usage'')"

text \<open>
  The loop \<^verbatim>\<open>while ((c = getopt(argc, argv, "j:")) != -1)\<close> with its switch, over the
  arguments after \<^verbatim>\<open>argv[0]\<close>. \<^verbatim>\<open>getopt\<close> belongs to the C library, and the libraries
  the program is built with differ in what they do with an argument that is not an
  option. Both behaviours are modelled; which one a run has is a parameter
  (\<open>getopt_kind\<close>).

  \<open>getopt_loop\<close> is the loop over POSIX's \<^verbatim>\<open>getopt\<close> (the BSDs and macOS, and glibc when
  \<^verbatim>\<open>POSIXLY_CORRECT\<close> is set): it stops at the first argument that is not an option
  (one that does not start with \<^verbatim>\<open>-\<close>, or is \<^verbatim>\<open>-\<close> alone), it skips an argument \<^verbatim>\<open>--\<close>
  and stops there, and it returns \<^verbatim>\<open>?\<close> for an option letter other than \<^verbatim>\<open>j\<close> and for
  \<^verbatim>\<open>-j\<close> without its argument, which the switch answers with \<^verbatim>\<open>exit(1)\<close>. The result
  is \<^verbatim>\<open>max_jobs\<close> and the arguments from \<^verbatim>\<open>optind\<close> on.
\<close>

definition set_max_jobs :: "string \<Rightarrow> halt + int" where
  "set_max_jobs optarg =
     (let mj = int_of_long (strtol optarg)
      in if mj < 1 then Inl (Halt 1 (''invalid -j: '' @ optarg)) else Inr mj)"

fun getopt_loop :: "int \<Rightarrow> string list \<Rightarrow> halt + (int \<times> string list)" where
  "getopt_loop mj [] = Inr (mj, [])"
| "getopt_loop mj ([] # as) = Inr (mj, [] # as)"
| "getopt_loop mj ([c] # as) = Inr (mj, [c] # as)"
| "getopt_loop mj ((c # d # rest) # as) =
     (if c \<noteq> CHR ''-'' then Inr (mj, (c # d # rest) # as)
      else if d = CHR ''-'' \<and> rest = [] then Inr (mj, as)
      else if d \<noteq> CHR ''j'' then Inl (Halt 1 ''getopt'')
      else if rest \<noteq> [] then
        (case set_max_jobs rest of Inl h \<Rightarrow> Inl h | Inr mj' \<Rightarrow> getopt_loop mj' as)
      else
        (case as of
           [] \<Rightarrow> Inl (Halt 1 ''getopt'')
         | optarg # as' \<Rightarrow>
             (case set_max_jobs optarg of
                Inl h \<Rightarrow> Inl h
              | Inr mj' \<Rightarrow> getopt_loop mj' as')))"

text \<open>
  \<open>getopt_loop_gnu\<close> is the loop over glibc's \<^verbatim>\<open>getopt\<close> as it is by default (Linux):
  an argument that is not an option is passed over and scanning goes on, so that options
  are found wherever they stand; an argument \<^verbatim>\<open>--\<close> ends the scanning and is dropped.
  \<^verbatim>\<open>getopt\<close> moves the arguments it passed over behind the options in \<^verbatim>\<open>argv\<close>, in their
  order: the arguments from \<^verbatim>\<open>optind\<close> on are those passed over (\<open>ops\<close>), followed by
  what stood after \<^verbatim>\<open>--\<close>.
\<close>

fun getopt_loop_gnu ::
    "int \<Rightarrow> string list \<Rightarrow> string list \<Rightarrow> halt + (int \<times> string list)" where
  "getopt_loop_gnu mj ops [] = Inr (mj, ops)"
| "getopt_loop_gnu mj ops ([] # as) = getopt_loop_gnu mj (ops @ [[]]) as"
| "getopt_loop_gnu mj ops ([c] # as) = getopt_loop_gnu mj (ops @ [[c]]) as"
| "getopt_loop_gnu mj ops ((c # d # rest) # as) =
     (if c \<noteq> CHR ''-'' then getopt_loop_gnu mj (ops @ [c # d # rest]) as
      else if d = CHR ''-'' \<and> rest = [] then Inr (mj, ops @ as)
      else if d \<noteq> CHR ''j'' then Inl (Halt 1 ''getopt'')
      else if rest \<noteq> [] then
        (case set_max_jobs rest of
           Inl h \<Rightarrow> Inl h
         | Inr mj' \<Rightarrow> getopt_loop_gnu mj' ops as)
      else
        (case as of
           [] \<Rightarrow> Inl (Halt 1 ''getopt'')
         | optarg # as' \<Rightarrow>
             (case set_max_jobs optarg of
                Inl h \<Rightarrow> Inl h
              | Inr mj' \<Rightarrow> getopt_loop_gnu mj' ops as')))"

datatype getopt_kind = Posix | Gnu

text \<open>
  The loop with the \<^verbatim>\<open>getopt\<close> of the given kind, from \<^verbatim>\<open>max_jobs = 1\<close>: the limit and the
  arguments that are left, which are the non-option arguments of the command line.
\<close>

definition getopt_args :: "getopt_kind \<Rightarrow> string list \<Rightarrow> halt + (int \<times> string list)" where
  "getopt_args k args =
     (case k of Posix \<Rightarrow> getopt_loop 1 args | Gnu \<Rightarrow> getopt_loop_gnu 1 [] args)"

text \<open>
  The separator test of the \<^verbatim>\<open>for\<close> loop. The kqueue revision has
  \<^verbatim>\<open>strcmp("--", argv[i]) != 0\<close>, the select revision
  \<^verbatim>\<open>strcmp("-", argv[i]) && strcmp("--", argv[i])\<close>.
\<close>

definition is_separator_kqueue :: "string \<Rightarrow> bool" where
  "is_separator_kqueue a \<longleftrightarrow> a = ''--''"

definition is_separator_select :: "string \<Rightarrow> bool" where
  "is_separator_select a \<longleftrightarrow> a = ''-'' \<or> a = ''--''"

text \<open>
  The value of \<^verbatim>\<open>i\<close> when the \<^verbatim>\<open>for\<close> loop is left: the index of the first separator,
  or \<^verbatim>\<open>argc\<close> when the loop ran to its end.
\<close>

fun separator_index :: "(string \<Rightarrow> bool) \<Rightarrow> string list \<Rightarrow> nat \<Rightarrow> nat" where
  "separator_index sep [] i = i"
| "separator_index sep (a # as) i =
     (if \<not> sep a then separator_index sep as (i + 1) else i)"

text \<open>
  The part of \<^verbatim>\<open>parse_options\<close> after \<^verbatim>\<open>argc -= optind; argv += optind\<close>. \<open>args\<close> is
  \<^verbatim>\<open>argv[0..argc-1]\<close> there. \<^verbatim>\<open>directories = argv\<close> with \<^verbatim>\<open>num_directories = i\<close> is the
  list \<open>take i args\<close>; \<^verbatim>\<open>command = argv + i + 1\<close> is \<open>drop (i + 1) args\<close>.
\<close>

definition split_arguments ::
    "(string \<Rightarrow> bool) \<Rightarrow> string list \<Rightarrow> halt + (string list \<times> string list)" where
  "split_arguments sep args =
     (if length args < 2 then usage
      else
        let i = separator_index sep args 0 in
        if i < length args then
          (if i < 1 \<or> i + 1 \<ge> length args then usage
           else Inr (take i args, drop (i + 1) args))
        else Inr (take 1 args, drop 1 args))"

definition parse_options ::
    "getopt_kind \<Rightarrow> (string \<Rightarrow> bool) \<Rightarrow> string list \<Rightarrow> halt + options" where
  "parse_options k sep argv =
     (case getopt_args k (drop 1 argv) of
        Inl h \<Rightarrow> Inl h
      | Inr (mj, args) \<Rightarrow>
          (case split_arguments sep args of
             Inl h \<Rightarrow> Inl h
           | Inr (dirs, cmd) \<Rightarrow>
               Inr \<lparr>max_jobs = mj, directories = dirs, command = cmd\<rparr>))"

subsection \<open>Pipers and the state of the parent process\<close>

type_synonym addr = nat

datatype stream = Stdout | Stderr

text \<open>
  \<^verbatim>\<open>struct piper\<close>. The \<^verbatim>\<open>next\<close> pointer of the select revision is the order of the
  list \<open>pipers\<close> below.
\<close>

record piper =
  in_fd :: int
  out_file :: stream
  prefix :: string
  newline :: bool

text \<open>
  The history of a run, kept beside the program's variables so that properties of a
  whole run can be stated on its last state: \<open>Started d n\<close> after \<^verbatim>\<open>start_job(d)\<close>
  and \<^verbatim>\<open>num_jobs++\<close> gave \<open>n\<close>; \<open>Reaped c n\<close> after a child with wait status \<open>c\<close>
  was collected (select) or its exit event arrived (kqueue, where the status is not
  read: \<open>c\<close> is the event's \<^verbatim>\<open>data\<close>) and \<^verbatim>\<open>num_jobs--\<close> gave \<open>n\<close>; \<open>Eof fd\<close>
  when \<^verbatim>\<open>read\<close> on \<open>fd\<close> returned 0 (select) or its event carried \<^verbatim>\<open>EV_EOF\<close>
  (kqueue).
\<close>

datatype event = Started string int | Reaped int int | Eof int

text \<open>
  One state type serves both revisions.
  \<^item> \<open>directory\<close>, \<open>num_jobs\<close>: the locals of \<^verbatim>\<open>main\<close>.
  \<^item> \<open>status\<close>: the local of \<^verbatim>\<open>main\<close> in the select revision; the kqueue revision
    has no such variable and never touches the field.
  \<^item> \<open>pipers\<close>: the pipers that are waited for, each at its address. In the select
    revision this is the linked list \<^verbatim>\<open>pipers\<close>, first node first. In the kqueue
    revision it is the \<^verbatim>\<open>EVFILT_READ\<close> registrations of the queue, each with its
    \<^verbatim>\<open>udata\<close>.
  \<^item> \<open>kq_procs\<close>: the \<^verbatim>\<open>EVFILT_PROC\<close> registrations (kqueue revision only).
  \<^item> \<open>allocated\<close>: the pipers obtained from \<^verbatim>\<open>malloc\<close> and not yet given to \<^verbatim>\<open>free\<close>.
  \<^item> \<open>open_pipes\<close>: the read ends of pipes that the parent holds open.
  \<^item> \<open>stdout_text\<close>, \<open>stderr_text\<close>: what was written to the two streams.
  \<^item> \<open>history\<close>: the events above, in their order.
  \<^item> \<open>children\<close>: the processes that \<^verbatim>\<open>fork\<close> made, in their order, each with what it
    does in the \<^verbatim>\<open>case 0\<close> branch of \<^verbatim>\<open>start_job\<close>: \<^verbatim>\<open>chdir(directory)\<close> and
    \<^verbatim>\<open>execvp(command[0], command)\<close>.
\<close>

record child =
  child_pid :: int
  child_dir :: string
  child_argv :: "string list"

record state =
  directory :: nat
  num_jobs :: int
  status :: int
  pipers :: "(addr \<times> piper) list"
  kq_procs :: "int list"
  allocated :: "addr list"
  open_pipes :: "int list"
  stdout_text :: string
  stderr_text :: string
  history :: "event list"
  children :: "child list"

definition initial_state :: state where
  "initial_state =
     \<lparr>directory = 0, num_jobs = 0, status = 0, pipers = [], kq_procs = [],
      allocated = [], open_pipes = [], stdout_text = [], stderr_text = [],
      history = [], children = []\<rparr>"

text \<open>
  What a function of the program can come to:
  \<open>Ok s\<close>, it ran to its end in state \<open>s\<close>;
  \<open>Die h\<close>, the process was ended by \<^verbatim>\<open>err\<close> or \<^verbatim>\<open>exit\<close>;
  \<open>Wait s\<close>, the environment's script ended (or did not fit the program's next
  call) while the program was in state \<open>s\<close>: it is still running.
\<close>

datatype outcome = Ok state | Die halt | Wait state

datatype errno = EAGAIN | EINTR | Errno int

text \<open>
  The result of one \<^verbatim>\<open>read\<close>: the bytes it stored (\<^verbatim>\<open>num_read\<close> is their number, so
  \<open>ReadBytes []\<close> is the read that returns 0), or \<open>-1\<close> with \<^verbatim>\<open>errno\<close>.
\<close>

datatype read_result = ReadBytes string | ReadFail errno

subsection \<open>The line prefixer\<close>

text \<open>
  The \<^verbatim>\<open>for\<close> loop of \<^verbatim>\<open>run_piper\<close>, the same text in both revisions:
  \<^verbatim>\<open>if (piper->newline) fprintf(out, "%s: ", prefix); fputc(buf[i], out);
  piper->newline = buf[i] == '\n';\<close>
  It runs on the piper and the text written to its stream so far.
\<close>

fun run_piper_bytes :: "piper \<Rightarrow> string \<Rightarrow> string \<Rightarrow> piper \<times> string" where
  "run_piper_bytes p out [] = (p, out)"
| "run_piper_bytes p out (c # cs) =
     run_piper_bytes (p\<lparr>newline := (c = CHR 0x0A)\<rparr>)
       ((if newline p then out @ prefix p @ '': '' else out) @ [c]) cs"

definition stream_text :: "stream \<Rightarrow> state \<Rightarrow> string" where
  "stream_text f s = (case f of Stdout \<Rightarrow> stdout_text s | Stderr \<Rightarrow> stderr_text s)"

definition set_stream_text :: "stream \<Rightarrow> string \<Rightarrow> state \<Rightarrow> state" where
  "set_stream_text f t s =
     (case f of Stdout \<Rightarrow> s\<lparr>stdout_text := t\<rparr> | Stderr \<Rightarrow> s\<lparr>stderr_text := t\<rparr>)"

text \<open>A write through the pointer \<open>a\<close>: the node at that address gets the value \<open>p\<close>.\<close>

fun store_piper :: "addr \<Rightarrow> piper \<Rightarrow> (addr \<times> piper) list \<Rightarrow> (addr \<times> piper) list" where
  "store_piper a p [] = []"
| "store_piper a p ((b, q) # ps) =
     (if b = a then (b, p) # ps else (b, q) # store_piper a p ps)"

text \<open>The loop applied to the piper at address \<open>a\<close> and its stream.\<close>

definition write_bytes :: "addr \<Rightarrow> piper \<Rightarrow> string \<Rightarrow> state \<Rightarrow> state" where
  "write_bytes a p bytes s =
     (let (p', t) = run_piper_bytes p (stream_text (out_file p) s) bytes
      in set_stream_text (out_file p) t (s\<lparr>pipers := store_piper a p' (pipers s)\<rparr>))"

subsection \<open>The select revision (\<^verbatim>\<open>src/unnamed/part_002\<close>)\<close>

text \<open>
  \<^verbatim>\<open>remove_piper\<close>: the first node of the list that is the piper is unlinked and
  freed. Nothing else is done; in particular \<^verbatim>\<open>piper->in_fd\<close> is not closed.
\<close>

fun unlink :: "addr \<Rightarrow> (addr \<times> piper) list \<Rightarrow> (addr \<times> piper) list" where
  "unlink a [] = []"
| "unlink a ((b, q) # ps) = (if b = a then ps else (b, q) # unlink a ps)"

definition remove_piper :: "addr \<Rightarrow> state \<Rightarrow> state" where
  "remove_piper a s =
     (if a \<in> fst ` set (pipers s)
      then s\<lparr>pipers := unlink a (pipers s), allocated := remove1 a (allocated s)\<rparr>
      else s)"

text \<open>
  \<^verbatim>\<open>run_piper\<close>: \<^verbatim>\<open>while ((num_read = read(...)) > 0)\<close> writes what was read; then a
  read of 0 bytes removes the piper, a failure other than \<^verbatim>\<open>EAGAIN\<close> is fatal, and
  \<^verbatim>\<open>EAGAIN\<close> returns. The list holds the results of the successive reads.
\<close>

fun run_piper_select :: "addr \<Rightarrow> read_result list \<Rightarrow> state \<Rightarrow> outcome" where
  "run_piper_select a [] s = Wait s"
| "run_piper_select a (r # rs) s =
     (case map_of (pipers s) a of
        None \<Rightarrow> Wait s
      | Some p \<Rightarrow>
          (case r of
             ReadBytes bytes \<Rightarrow>
               if bytes \<noteq> [] then run_piper_select a rs (write_bytes a p bytes s)
               else Ok (remove_piper a (s\<lparr>history := history s @ [Eof (in_fd p)]\<rparr>))
           | ReadFail e \<Rightarrow>
               if e \<noteq> EAGAIN then Die (Halt 1 ''read'') else Ok s))"

text \<open>
  \<^verbatim>\<open>start_piper\<close>. The environment says where \<^verbatim>\<open>malloc\<close> put the piper, or which call
  failed.
\<close>

datatype piper_env_select = MallocFails | GetflFails | SetflFails | PiperAt addr

definition start_piper_select ::
    "int \<Rightarrow> stream \<Rightarrow> string \<Rightarrow> piper_env_select \<Rightarrow> state \<Rightarrow> halt + state" where
  "start_piper_select fd file pre env s =
     (case env of
        MallocFails \<Rightarrow> Inl (Halt 1 ''malloc'')
      | GetflFails \<Rightarrow> Inl (Halt 1 ''F_GETFL'')
      | SetflFails \<Rightarrow> Inl (Halt 1 ''F_SETFL'')
      | PiperAt a \<Rightarrow>
          Inr (s\<lparr>pipers :=
                   (a, \<lparr>in_fd = fd, out_file = file, prefix = pre, newline = True\<rparr>)
                     # pipers s,
                 allocated := a # allocated s\<rparr>))"

text \<open>
  \<^verbatim>\<open>start_job\<close>. \<open>Forked pid r_out r_err e_out e_err\<close>: both pipes were made with
  read ends \<open>r_out\<close> and \<open>r_err\<close>, \<^verbatim>\<open>fork\<close> returned the child's \<open>pid\<close>. The child
  is the \<^verbatim>\<open>case 0\<close> branch: it changes to \<open>dir\<close> and executes the global \<^verbatim>\<open>command\<close>
  (\<open>cmd\<close>). In the parent the write ends are closed again at once, so only the read
  ends stay open.
\<close>

datatype job_env_select =
  PipeFails | ForkFails | Forked int int int piper_env_select piper_env_select

definition start_job_select ::
    "string list \<Rightarrow> string \<Rightarrow> job_env_select \<Rightarrow> state \<Rightarrow> halt + state" where
  "start_job_select cmd dir env s =
     (case env of
        PipeFails \<Rightarrow> Inl (Halt 1 ''pipe'')
      | ForkFails \<Rightarrow> Inl (Halt 1 ''fork'')
      | Forked pid r_out r_err e_out e_err \<Rightarrow>
          (case start_piper_select r_out Stdout dir e_out
                  (s\<lparr>open_pipes := r_err # r_out # open_pipes s,
                     children := children s @
                       [\<lparr>child_pid = pid, child_dir = dir, child_argv = cmd\<rparr>]\<rparr>) of
             Inl h \<Rightarrow> Inl h
           | Inr s' \<Rightarrow> start_piper_select r_err Stderr dir e_err s'))"

text \<open>
  \<^verbatim>\<open>while (num_jobs < max_jobs && directory < num_directories)\<close>: one element of the
  script for each \<^verbatim>\<open>start_job\<close>.
\<close>

fun start_jobs_select :: "options \<Rightarrow> job_env_select list \<Rightarrow> state \<Rightarrow> outcome" where
  "start_jobs_select opts [] s =
     (if num_jobs s < max_jobs opts \<and> directory s < length (directories opts)
      then Wait s else Ok s)"
| "start_jobs_select opts (e # es) s =
     (if num_jobs s < max_jobs opts \<and> directory s < length (directories opts) then
        (case start_job_select (command opts) (directories opts ! directory s) e s of
           Inl h \<Rightarrow> Die h
         | Inr s' \<Rightarrow>
             start_jobs_select opts es
               (s'\<lparr>num_jobs := num_jobs s' + 1,
                   directory := directory s' + 1,
                   history := history s' @
                     [Started (directories opts ! directory s') (num_jobs s' + 1)]\<rparr>))
      else Ok s)"

text \<open>
  The loop over the list after \<^verbatim>\<open>select\<close>: \<open>as\<close> are the nodes still to visit
  (\<^verbatim>\<open>piper_next\<close> is read before \<^verbatim>\<open>run_piper\<close> may free the node), \<open>ready\<close> the
  descriptors set in \<^verbatim>\<open>piper_fds\<close>, \<open>rd\<close> the results of the reads on each.
\<close>

definition reads_on :: "(int \<times> read_result list) list \<Rightarrow> int \<Rightarrow> read_result list" where
  "reads_on rd fd = (case map_of rd fd of None \<Rightarrow> [] | Some rs \<Rightarrow> rs)"

fun run_pipers_select ::
    "addr list \<Rightarrow> int list \<Rightarrow> (int \<times> read_result list) list \<Rightarrow> state \<Rightarrow> outcome" where
  "run_pipers_select [] ready rd s = Ok s"
| "run_pipers_select (a # as) ready rd s =
     (case map_of (pipers s) a of
        None \<Rightarrow> Wait s
      | Some p \<Rightarrow>
          if in_fd p \<in> set ready then
            (case run_piper_select a (reads_on rd (in_fd p)) s of
               Ok s' \<Rightarrow> run_pipers_select as ready rd s'
             | Die h \<Rightarrow> Die h
             | Wait s' \<Rightarrow> Wait s')
          else run_pipers_select as ready rd s)"

datatype select_env = SelectFails errno | SelectReady "int list"

definition wait_for_data ::
    "select_env \<Rightarrow> (int \<times> read_result list) list \<Rightarrow> state \<Rightarrow> outcome" where
  "wait_for_data sel rd s =
     (case sel of
        SelectReady ready \<Rightarrow> run_pipers_select (map fst (pipers s)) ready rd s
      | SelectFails e \<Rightarrow> if e \<noteq> EINTR then Die (Halt 1 ''select'') else Ok s)"

text \<open>
  \<^verbatim>\<open>while (num_jobs)\<close> around \<^verbatim>\<open>waitpid(-1, &child_status, WNOHANG)\<close>: \<open>WaitFails\<close> is
  \<open>-1\<close>, \<open>WaitNone\<close> is 0, \<open>WaitChild pid c\<close> a child with wait status \<open>c\<close>.
\<close>

datatype wait_env = WaitFails | WaitNone | WaitChild int int

fun collect_exits :: "wait_env list \<Rightarrow> state \<Rightarrow> outcome" where
  "collect_exits [] s = (if num_jobs s \<noteq> 0 then Wait s else Ok s)"
| "collect_exits (w # ws) s =
     (if num_jobs s \<noteq> 0 then
        (case w of
           WaitFails \<Rightarrow> Die (Halt 1 ''waitpid'')
         | WaitNone \<Rightarrow> Ok s
         | WaitChild pid c \<Rightarrow>
             collect_exits ws
               (s\<lparr>num_jobs := num_jobs s - 1,
                  status := (if c \<noteq> 0 then 1 else status s),
                  history := history s @ [Reaped c (num_jobs s - 1)]\<rparr>))
      else Ok s)"

text \<open>What the environment does during one turn of the loop of \<^verbatim>\<open>main\<close>.\<close>

record turn_select =
  jobs :: "job_env_select list"
  selected :: select_env
  reads :: "(int \<times> read_result list) list"
  waits :: "wait_env list"

definition turn_of_select :: "options \<Rightarrow> turn_select \<Rightarrow> state \<Rightarrow> outcome" where
  "turn_of_select opts env s =
     (case start_jobs_select opts (jobs env) s of
        Ok s1 \<Rightarrow>
          (case wait_for_data (selected env) (reads env) s1 of
             Ok s2 \<Rightarrow> collect_exits (waits env) s2
           | Die h \<Rightarrow> Die h
           | Wait s2 \<Rightarrow> Wait s2)
      | Die h \<Rightarrow> Die h
      | Wait s1 \<Rightarrow> Wait s1)"

text \<open>\<^verbatim>\<open>while (num_jobs || pipers || directory < num_directories)\<close>\<close>

definition loop_condition_select :: "options \<Rightarrow> state \<Rightarrow> bool" where
  "loop_condition_select opts s \<longleftrightarrow>
     num_jobs s \<noteq> 0 \<or> pipers s \<noteq> [] \<or> directory s < length (directories opts)"

fun loop_select :: "options \<Rightarrow> turn_select list \<Rightarrow> state \<Rightarrow> outcome" where
  "loop_select opts [] s = (if loop_condition_select opts s then Wait s else Ok s)"
| "loop_select opts (env # envs) s =
     (if loop_condition_select opts s then
        (case turn_of_select opts env s of
           Ok s' \<Rightarrow> loop_select opts envs s'
         | Die h \<Rightarrow> Die h
         | Wait s' \<Rightarrow> Wait s')
      else Ok s)"

text \<open>
  \<^verbatim>\<open>sig_chld\<close>, which \<^verbatim>\<open>main\<close> installs for \<^verbatim>\<open>SIGCHLD\<close> before the loop: its body is empty. A
  signal that arrives while the process is in \<^verbatim>\<open>select\<close> makes the call fail with
  \<^verbatim>\<open>EINTR\<close> (\<open>SelectFails EINTR\<close>); one that arrives at any other moment runs the
  handler and leaves nothing behind.
\<close>

definition sig_chld :: "state \<Rightarrow> state" where
  "sig_chld s = s"

text \<open>\<^verbatim>\<open>main\<close>, and the exit code of the process: \<^verbatim>\<open>return status\<close>.\<close>

definition main_select ::
    "getopt_kind \<Rightarrow> string list \<Rightarrow> turn_select list \<Rightarrow> outcome" where
  "main_select k argv envs =
     (case parse_options k is_separator_select argv of
        Inl h \<Rightarrow> Die h
      | Inr opts \<Rightarrow> loop_select opts envs initial_state)"

definition exit_code_select :: "outcome \<Rightarrow> int option" where
  "exit_code_select r =
     (case r of Ok s \<Rightarrow> Some (status s) | Die h \<Rightarrow> Some (exit_code h) | Wait s \<Rightarrow> None)"

subsection \<open>The kqueue revision (\<^verbatim>\<open>src/within.c\<close>)\<close>

text \<open>
  \<^verbatim>\<open>start_piper\<close> with \<^verbatim>\<open>register_piper\<close>: the piper is allocated and added to the
  queue's read registrations.
\<close>

datatype piper_env_kqueue = MallocFailsK | AddFileFails | PiperAtK addr

definition start_piper_kqueue ::
    "int \<Rightarrow> stream \<Rightarrow> string \<Rightarrow> piper_env_kqueue \<Rightarrow> state \<Rightarrow> halt + state" where
  "start_piper_kqueue fd file pre env s =
     (case env of
        MallocFailsK \<Rightarrow> Inl (Halt 1 ''malloc'')
      | AddFileFails \<Rightarrow> Inl (Halt 1 ''adding file kevent'')
      | PiperAtK a \<Rightarrow>
          Inr (s\<lparr>pipers :=
                   (a, \<lparr>in_fd = fd, out_file = file, prefix = pre, newline = True\<rparr>)
                     # pipers s,
                 allocated := a # allocated s\<rparr>))"

text \<open>
  \<^verbatim>\<open>start_job\<close> in the parent, with \<^verbatim>\<open>register_job(pid)\<close> before the two pipers are
  started. \<open>AddExitFails\<close>: the pipes and the child exist, the \<^verbatim>\<open>kevent\<close> call of
  \<^verbatim>\<open>register_job\<close> failed.
\<close>

datatype job_env_kqueue =
  PipeFailsK | ForkFailsK | AddExitFails
  | ForkedK int int int piper_env_kqueue piper_env_kqueue

definition start_job_kqueue ::
    "string list \<Rightarrow> string \<Rightarrow> job_env_kqueue \<Rightarrow> state \<Rightarrow> halt + state" where
  "start_job_kqueue cmd dir env s =
     (case env of
        PipeFailsK \<Rightarrow> Inl (Halt 1 ''pipe'')
      | ForkFailsK \<Rightarrow> Inl (Halt 1 ''fork'')
      | AddExitFails \<Rightarrow> Inl (Halt 1 ''adding exit kevent'')
      | ForkedK pid r_out r_err e_out e_err \<Rightarrow>
          (case start_piper_kqueue r_out Stdout dir e_out
                  (s\<lparr>open_pipes := r_err # r_out # open_pipes s,
                     children := children s @
                       [\<lparr>child_pid = pid, child_dir = dir, child_argv = cmd\<rparr>],
                     kq_procs := pid # kq_procs s\<rparr>) of
             Inl h \<Rightarrow> Inl h
           | Inr s' \<Rightarrow> start_piper_kqueue r_err Stderr dir e_err s'))"

fun start_jobs_kqueue :: "options \<Rightarrow> job_env_kqueue list \<Rightarrow> state \<Rightarrow> outcome" where
  "start_jobs_kqueue opts [] s =
     (if num_jobs s < max_jobs opts \<and> directory s < length (directories opts)
      then Wait s else Ok s)"
| "start_jobs_kqueue opts (e # es) s =
     (if num_jobs s < max_jobs opts \<and> directory s < length (directories opts) then
        (case start_job_kqueue (command opts) (directories opts ! directory s) e s of
           Inl h \<Rightarrow> Die h
         | Inr s' \<Rightarrow>
             start_jobs_kqueue opts es
               (s'\<lparr>num_jobs := num_jobs s' + 1,
                   directory := directory s' + 1,
                   history := history s' @
                     [Started (directories opts ! directory s') (num_jobs s' + 1)]\<rparr>))
      else Ok s)"

text \<open>
  \<^verbatim>\<open>run_piper(piper, num_readable)\<close>: one buffer from \<^verbatim>\<open>malloc\<close>, one \<^verbatim>\<open>read\<close>; every
  failure of the read is fatal. \<open>n\<close> is \<^verbatim>\<open>num_readable\<close>, the size asked of both
  calls.
\<close>

definition run_piper_kqueue :: "addr \<Rightarrow> nat \<Rightarrow> bool \<Rightarrow> read_result \<Rightarrow> state \<Rightarrow> outcome" where
  "run_piper_kqueue a n malloc_ok r s =
     (case map_of (pipers s) a of
        None \<Rightarrow> Wait s
      | Some p \<Rightarrow>
          if \<not> malloc_ok then Die (Halt 1 ''malloc'')
          else
            (case r of
               ReadFail e \<Rightarrow> Die (Halt 1 ''read'')
             | ReadBytes bytes \<Rightarrow> Ok (write_bytes a p bytes s)))"

text \<open>
  The three statements under \<^verbatim>\<open>if (event.flags & EV_EOF)\<close>:
  \<^verbatim>\<open>deregister_piper\<close>, \<^verbatim>\<open>close(in_fd)\<close>, \<^verbatim>\<open>free\<close>.
\<close>

definition retire_piper_kqueue :: "addr \<Rightarrow> bool \<Rightarrow> state \<Rightarrow> outcome" where
  "retire_piper_kqueue a delete_ok s =
     (case map_of (pipers s) a of
        None \<Rightarrow> Wait s
      | Some p \<Rightarrow>
          if \<not> delete_ok then Die (Halt 1 ''removing file kevent'')
          else Ok (s\<lparr>pipers := unlink a (pipers s),
                     open_pipes := removeAll (in_fd p) (open_pipes s),
                     allocated := remove1 a (allocated s),
                     history := history s @ [Eof (in_fd p)]\<rparr>))"

text \<open>
  The event that \<^verbatim>\<open>kevent\<close> returns: \<open>ProcExit pid c\<close> has the filter
  \<^verbatim>\<open>EVFILT_PROC\<close> (the child's status \<open>c\<close> is in \<^verbatim>\<open>data\<close>, which \<^verbatim>\<open>main\<close> does not
  read); \<open>Readable a n eof\<close> has \<^verbatim>\<open>EVFILT_READ\<close>, \<^verbatim>\<open>udata\<close> \<open>a\<close>, \<^verbatim>\<open>data\<close> \<open>n\<close> and
  the flag \<^verbatim>\<open>EV_EOF\<close> when \<open>eof\<close>; \<open>OtherFilter\<close> is any other filter, for which the
  switch has no case.
\<close>

datatype kevent_env = KeventFails | ProcExit int int | Readable addr nat bool | OtherFilter

record turn_kqueue =
  jobs_k :: "job_env_kqueue list"
  event_k :: kevent_env
  malloc_k :: bool
  read_k :: read_result
  delete_k :: bool

definition handle_event_kqueue :: "turn_kqueue \<Rightarrow> state \<Rightarrow> outcome" where
  "handle_event_kqueue env s =
     (case event_k env of
        KeventFails \<Rightarrow> Die (Halt 1 ''polling kevent'')
      | ProcExit pid c \<Rightarrow>
          Ok (s\<lparr>num_jobs := num_jobs s - 1,
                kq_procs := remove1 pid (kq_procs s),
                history := history s @ [Reaped c (num_jobs s - 1)]\<rparr>)
      | Readable a n eof \<Rightarrow>
          (case run_piper_kqueue a n (malloc_k env) (read_k env) s of
             Ok s' \<Rightarrow> if eof then retire_piper_kqueue a (delete_k env) s' else Ok s'
           | Die h \<Rightarrow> Die h
           | Wait s' \<Rightarrow> Wait s')
      | OtherFilter \<Rightarrow> Ok s)"

definition turn_of_kqueue :: "options \<Rightarrow> turn_kqueue \<Rightarrow> state \<Rightarrow> outcome" where
  "turn_of_kqueue opts env s =
     (case start_jobs_kqueue opts (jobs_k env) s of
        Ok s1 \<Rightarrow> handle_event_kqueue env s1
      | Die h \<Rightarrow> Die h
      | Wait s1 \<Rightarrow> Wait s1)"

text \<open>\<^verbatim>\<open>while (num_jobs || directory < num_directories)\<close>\<close>

definition loop_condition_kqueue :: "options \<Rightarrow> state \<Rightarrow> bool" where
  "loop_condition_kqueue opts s \<longleftrightarrow>
     num_jobs s \<noteq> 0 \<or> directory s < length (directories opts)"

fun loop_kqueue :: "options \<Rightarrow> turn_kqueue list \<Rightarrow> state \<Rightarrow> outcome" where
  "loop_kqueue opts [] s = (if loop_condition_kqueue opts s then Wait s else Ok s)"
| "loop_kqueue opts (env # envs) s =
     (if loop_condition_kqueue opts s then
        (case turn_of_kqueue opts env s of
           Ok s' \<Rightarrow> loop_kqueue opts envs s'
         | Die h \<Rightarrow> Die h
         | Wait s' \<Rightarrow> Wait s')
      else Ok s)"

text \<open>
  \<^verbatim>\<open>main\<close>: \<open>kqueue_ok\<close> says whether \<^verbatim>\<open>kqueue()\<close> gave a queue. The function has no
  \<^verbatim>\<open>return\<close>: control reaches the closing brace of \<^verbatim>\<open>main\<close>, which in C (since C99)
  returns 0.
\<close>

definition main_kqueue ::
    "getopt_kind \<Rightarrow> string list \<Rightarrow> bool \<Rightarrow> turn_kqueue list \<Rightarrow> outcome" where
  "main_kqueue k argv kqueue_ok envs =
     (case parse_options k is_separator_kqueue argv of
        Inl h \<Rightarrow> Die h
      | Inr opts \<Rightarrow>
          if \<not> kqueue_ok then Die (Halt 1 ''kqueue'')
          else loop_kqueue opts envs initial_state)"

definition exit_code_kqueue :: "outcome \<Rightarrow> int option" where
  "exit_code_kqueue r =
     (case r of Ok s \<Rightarrow> Some 0 | Die h \<Rightarrow> Some (exit_code h) | Wait s \<Rightarrow> None)"

subsection \<open>Notions of the specification\<close>

text \<open>
  The lines of a byte sequence: each line ends with its line terminator, the last one
  may lack it. \<open>prefixed_lines\<close> is the text the specification asks for: every line
  with \<open>prefix: \<close> before its first byte, and nowhere else.
\<close>

fun split_lines :: "string \<Rightarrow> string list" where
  "split_lines [] = []"
| "split_lines (c # cs) =
     (if c = CHR 0x0A then [c] # split_lines cs
      else (case split_lines cs of [] \<Rightarrow> [[c]] | l # ls \<Rightarrow> (c # l) # ls))"

definition prefixed_lines :: "string \<Rightarrow> string \<Rightarrow> string" where
  "prefixed_lines pre bytes = concat (map (\<lambda>l. pre @ '': '' @ l) (split_lines bytes))"

text \<open>
  The loop of \<^verbatim>\<open>run_piper\<close> run once for each chunk that successive reads deliver; the
  piper (with its flag) is carried from one chunk to the next, as \<^verbatim>\<open>piper->newline\<close>
  is in the program.
\<close>

definition run_piper_chunks :: "piper \<Rightarrow> string \<Rightarrow> string list \<Rightarrow> piper \<times> string" where
  "run_piper_chunks p out chunks =
     foldl (\<lambda>(q, t) bytes. run_piper_bytes q t bytes) (p, out) chunks"

text \<open>What the loop writes for \<open>bytes\<close> when the flag is \<open>nl\<close> at its start.\<close>

fun render :: "string \<Rightarrow> bool \<Rightarrow> string \<Rightarrow> string" where
  "render pre nl [] = []"
| "render pre nl (c # cs) =
     (if nl then pre @ '': '' else []) @ c # render pre (c = CHR 0x0A) cs"

text \<open>The value of a string of decimal digits.\<close>

definition dec_value :: "string \<Rightarrow> int" where
  "dec_value ds = foldl (\<lambda>v c. v * 10 + digit_val c) 0 ds"


text \<open>
  An argument that \<^verbatim>\<open>getopt\<close> reads as options or as the end of the options: it starts
  with \<^verbatim>\<open>-\<close> and is longer than that.
\<close>

definition option_like :: "string \<Rightarrow> bool" where
  "option_like a = (case a of c # d # rest \<Rightarrow> c = CHR ''-'' | _ \<Rightarrow> False)"

text \<open>Readings of the history.\<close>

fun started_dir :: "event \<Rightarrow> string list" where
  "started_dir (Started d n) = [d]"
| "started_dir (Reaped c n) = []"
| "started_dir (Eof fd) = []"

fun reaped_status :: "event \<Rightarrow> int list" where
  "reaped_status (Started d n) = []"
| "reaped_status (Reaped c n) = [c]"
| "reaped_status (Eof fd) = []"

fun eof_fd :: "event \<Rightarrow> int list" where
  "eof_fd (Started d n) = []"
| "eof_fd (Reaped c n) = []"
| "eof_fd (Eof fd) = [fd]"

fun jobs_after :: "event \<Rightarrow> int list" where
  "jobs_after (Started d n) = [n]"
| "jobs_after (Reaped c n) = [n]"
| "jobs_after (Eof fd) = []"

definition started_dirs :: "event list \<Rightarrow> string list" where
  "started_dirs h = concat (map started_dir h)"

definition reaped_statuses :: "event list \<Rightarrow> int list" where
  "reaped_statuses h = concat (map reaped_status h)"

definition eof_fds :: "event list \<Rightarrow> int list" where
  "eof_fds h = concat (map eof_fd h)"

text \<open>The values that \<^verbatim>\<open>num_jobs\<close> took, in order.\<close>

definition jobs_counts :: "event list \<Rightarrow> int list" where
  "jobs_counts h = concat (map jobs_after h)"

subsection \<open>Invariants\<close>

text \<open>The descriptors of the pipers that are waited for.\<close>

definition piper_fds :: "state \<Rightarrow> int list" where
  "piper_fds s = map (\<lambda>x. in_fd (snd x)) (pipers s)"

text \<open>
  What is kept true of the job counter in both revisions: it never exceeds the limit and
  never did, and the jobs started so far are those of the first \<open>directory\<close>
  directories, in order: so say the history and the children that were forked, each
  of which runs the command.
\<close>

definition jobs_inv :: "options \<Rightarrow> state \<Rightarrow> bool" where
  "jobs_inv opts s \<longleftrightarrow>
     num_jobs s \<le> max_jobs opts \<and>
     directory s \<le> length (directories opts) \<and>
     list_all (\<lambda>n. n \<le> max_jobs opts) (jobs_counts (history s)) \<and>
     started_dirs (history s) = take (directory s) (directories opts) \<and>
     map child_dir (children s) = take (directory s) (directories opts) \<and>
     list_all (\<lambda>c. child_argv c = command opts) (children s)"

text \<open>
  Every directory has had its job started, and \<open>cs\<close> are the children that were forked.
\<close>

definition all_forked :: "options \<Rightarrow> child list \<Rightarrow> state \<Rightarrow> bool" where
  "all_forked opts cs s \<longleftrightarrow> directory s = length (directories opts) \<and> children s = cs"

text \<open>A property of the state in which a function ends or waits.\<close>

definition holds :: "(state \<Rightarrow> bool) \<Rightarrow> outcome \<Rightarrow> bool" where
  "holds P r = (case r of Ok s \<Rightarrow> P s | Die h \<Rightarrow> True | Wait s \<Rightarrow> P s)"

text \<open>Two states that differ in nothing that concerns jobs.\<close>

definition frame :: "state \<Rightarrow> state \<Rightarrow> bool" where
  "frame s s' \<longleftrightarrow>
     num_jobs s' = num_jobs s \<and> directory s' = directory s \<and> status s' = status s \<and>
     jobs_counts (history s') = jobs_counts (history s) \<and>
     started_dirs (history s') = started_dirs (history s) \<and>
     reaped_statuses (history s') = reaped_statuses (history s) \<and>
     children s' = children s"

text \<open>
  What is kept true in the select revision: \<^verbatim>\<open>num_jobs\<close> counts the jobs started and
  not yet collected, \<^verbatim>\<open>status\<close> is 1 exactly when a collected wait status was not 0,
  and every pipe the parent opened is either still read by a piper of the list or has
  delivered its end of stream.
\<close>

definition select_inv :: "state \<Rightarrow> bool" where
  "select_inv s \<longleftrightarrow>
     0 \<le> num_jobs s \<and>
     num_jobs s = int (directory s) - int (length (reaped_statuses (history s))) \<and>
     status s = (if list_all (\<lambda>c. c = 0) (reaped_statuses (history s)) then 0 else 1) \<and>
     set (open_pipes s) = set (piper_fds s) \<union> set (eof_fds (history s))"

subsection \<open>Environments in which every child is started and exits\<close>

text \<open>
  That every directory gets its job in the end depends on the environment: the children
  must exit, and the wait of the loop must be ended by it. The turns below are those in
  which nothing fails and the exit of a child ends the wait. In the select revision
  \<^verbatim>\<open>select\<close> is interrupted by \<^verbatim>\<open>SIGCHLD\<close> and \<^verbatim>\<open>waitpid\<close> then finds as many children as
  can be running; in the kqueue revision the event that \<^verbatim>\<open>kevent\<close> returns is the exit of
  a child.
\<close>

definition job_started_select :: "job_env_select \<Rightarrow> bool" where
  "job_started_select e =
     (case e of Forked pid r_out r_err (PiperAt a) (PiperAt b) \<Rightarrow> True | _ \<Rightarrow> False)"

definition child_exits :: "wait_env \<Rightarrow> bool" where
  "child_exits w = (case w of WaitChild pid c \<Rightarrow> True | _ \<Rightarrow> False)"

definition cooperative_select :: "options \<Rightarrow> turn_select \<Rightarrow> bool" where
  "cooperative_select opts env \<longleftrightarrow>
     list_all job_started_select (jobs env) \<and>
     length (directories opts) \<le> length (jobs env) \<and>
     selected env = SelectFails EINTR \<and>
     list_all child_exits (waits env) \<and>
     max_jobs opts \<le> int (length (waits env))"

definition job_started_kqueue :: "job_env_kqueue \<Rightarrow> bool" where
  "job_started_kqueue e =
     (case e of ForkedK pid r_out r_err (PiperAtK a) (PiperAtK b) \<Rightarrow> True | _ \<Rightarrow> False)"

definition cooperative_kqueue :: "options \<Rightarrow> turn_kqueue \<Rightarrow> bool" where
  "cooperative_kqueue opts env \<longleftrightarrow>
     list_all job_started_kqueue (jobs_k env) \<and>
     length (directories opts) \<le> length (jobs_k env) \<and>
     (case event_k env of ProcExit pid c \<Rightarrow> True | _ \<Rightarrow> False)"

text \<open>
  The turns of the kqueue revision in which the queue reports, one event for each chunk,
  that the pipe of the piper at \<open>a\<close> can be read, \<^verbatim>\<open>data\<close> being the size of the chunk
  and \<^verbatim>\<open>EV_EOF\<close> not set, and the read delivers the chunk.
\<close>

definition chunk_events :: "addr \<Rightarrow> job_env_kqueue list \<Rightarrow> string list \<Rightarrow> turn_kqueue list" where
  "chunk_events a js chunks =
     map (\<lambda>c. \<lparr>jobs_k = js, event_k = Readable a (length c) False, malloc_k = True,
               read_k = ReadBytes c, delete_k = True\<rparr>) chunks"

text \<open>The state of an outcome that has one.\<close>

definition reached :: "outcome \<Rightarrow> state \<Rightarrow> bool" where
  "reached r s \<longleftrightarrow> r = Ok s \<or> r = Wait s"

text \<open>An outcome whose exit code, if the process was ended, is 1.\<close>

definition fatal1 :: "outcome \<Rightarrow> bool" where
  "fatal1 r = (case r of Ok s \<Rightarrow> True | Die h \<Rightarrow> exit_code h = 1 | Wait s \<Rightarrow> True)"

section \<open>Properties of the command line\<close>

lemma separator_index_eq:
  "separator_index sep as i = i + length (takeWhile (\<lambda>a. \<not> sep a) as)"
  by (induction as arbitrary: i) auto

lemma separator_index_none:
  "\<forall>a \<in> set as. \<not> sep a \<Longrightarrow> separator_index sep as i = i + length as"
  by (simp add: separator_index_eq takeWhile_eq_all_conv[THEN iffD2])

lemma separator_index_first:
  "\<forall>d \<in> set dirs. \<not> sep d \<Longrightarrow> sep x \<Longrightarrow>
   separator_index sep (dirs @ x # cmd) i = i + length dirs"
  by (simp add: separator_index_eq takeWhile_append2)

lemma split_arguments_no_separator:
  assumes "\<forall>a \<in> set args. \<not> sep a" and "2 \<le> length args"
  shows "split_arguments sep args = Inr ([hd args], tl args)"
proof -
  obtain a rest where args: "args = a # rest"
    using assms(2) by (cases args) auto
  have "rest \<noteq> []" using assms(2) args by auto
  then show ?thesis
    using assms by (simp add: split_arguments_def separator_index_none args drop_Suc)
qed

lemma split_arguments_first_separator:
  assumes "\<forall>d \<in> set dirs. \<not> sep d" and "sep x" and "dirs \<noteq> []" and "cmd \<noteq> []"
  shows "split_arguments sep (dirs @ x # cmd) = Inr (dirs, cmd)"
proof -
  have i: "separator_index sep (dirs @ x # cmd) 0 = length dirs"
    using assms(1,2) by (simp add: separator_index_first)
  have "0 < length dirs" "0 < length cmd"
    using assms(3,4) by simp_all
  then show ?thesis
    by (simp add: split_arguments_def i Let_def)
qed




lemma split_arguments_Inl:
  "split_arguments sep args = Inl h \<Longrightarrow> h = Halt 1 ''usage''"
  by (auto simp: split_arguments_def usage_def Let_def split: if_splits)

lemma set_max_jobs_Inl:
  "set_max_jobs optarg = Inl h \<Longrightarrow> exit_code h = 1"
  by (auto simp: set_max_jobs_def Let_def split: if_splits)

lemma set_max_jobs_Inr:
  "set_max_jobs optarg = Inr mj \<Longrightarrow> 1 \<le> mj"
  by (auto simp: set_max_jobs_def Let_def split: if_splits)

lemma getopt_loop_Inl:
  "getopt_loop mj as = Inl h \<Longrightarrow> exit_code h = 1"
  by (induction mj as rule: getopt_loop.induct)
     (auto split: if_splits sum.splits list.splits dest: set_max_jobs_Inl)

lemma getopt_loop_Inr:
  "getopt_loop mj as = Inr (mj', rest) \<Longrightarrow> 1 \<le> mj \<Longrightarrow> 1 \<le> mj'"
  by (induction mj as rule: getopt_loop.induct)
     (auto split: if_splits sum.splits list.splits dest: set_max_jobs_Inr)

lemma getopt_loop_gnu_Inl:
  "getopt_loop_gnu mj ops as = Inl h \<Longrightarrow> exit_code h = 1"
  by (induction mj ops as rule: getopt_loop_gnu.induct)
     (auto split: if_splits sum.splits list.splits dest: set_max_jobs_Inl)

lemma getopt_loop_gnu_Inr:
  "getopt_loop_gnu mj ops as = Inr (mj', rest) \<Longrightarrow> 1 \<le> mj \<Longrightarrow> 1 \<le> mj'"
  by (induction mj ops as rule: getopt_loop_gnu.induct)
     (auto split: if_splits sum.splits list.splits dest: set_max_jobs_Inr)

lemma getopt_args_Inl:
  "getopt_args k as = Inl h \<Longrightarrow> exit_code h = 1"
  by (cases k) (auto simp: getopt_args_def dest: getopt_loop_Inl getopt_loop_gnu_Inl)

lemma getopt_args_Inr:
  "getopt_args k as = Inr (mj, rest) \<Longrightarrow> 1 \<le> mj"
  by (cases k) (auto simp: getopt_args_def dest: getopt_loop_Inr getopt_loop_gnu_Inr)

lemma parse_options_Inl:
  "parse_options k sep argv = Inl h \<Longrightarrow> exit_code h = 1"
  by (auto simp: parse_options_def split: sum.splits prod.splits
           dest: getopt_args_Inl split_arguments_Inl)

lemma parse_options_Inr:
  "parse_options k sep argv = Inr opts \<Longrightarrow>
     1 \<le> max_jobs opts \<and> directories opts \<noteq> [] \<and> command opts \<noteq> []"
  by (auto simp: parse_options_def split_arguments_def Let_def usage_def
           split: sum.splits prod.splits if_splits
           dest: getopt_args_Inr)

lemma strtol_digits_prefix:
  "list_all isdigit ds \<Longrightarrow> rest = [] \<or> \<not> isdigit (hd rest) \<Longrightarrow>
   strtol_digits acc (ds @ rest) = foldl (\<lambda>v c. v * 10 + digit_val c) acc ds"
proof (induction ds arbitrary: acc)
  case Nil
  then show ?case by (cases rest) auto
next
  case (Cons d ds)
  then show ?case by simp
qed

lemma isdigit_not_space: "isdigit c \<Longrightarrow> \<not> isspace c"
  by (auto simp: isdigit_def isspace_def)

lemma isdigit_not_sign: "isdigit c \<Longrightarrow> c \<noteq> CHR ''-'' \<and> c \<noteq> CHR ''+''"
  by (auto simp: isdigit_def)

lemma strtol_numeric_prefix:
  assumes ws: "list_all isspace ws" and ds: "list_all isdigit ds" "ds \<noteq> []"
    and rest: "rest = [] \<or> \<not> isdigit (hd rest)"
  shows "strtol (ws @ ds @ rest) = min LONG_MAX (dec_value ds)"
proof -
  obtain d ds' where d: "ds = d # ds'" using ds(2) by (cases ds) auto
  have dig: "isdigit d" using ds(1) d by simp
  have "dropWhile isspace (ws @ ds @ rest) = ds @ rest"
    using ws dig d isdigit_not_space[OF dig]
    by (simp add: dropWhile_append list_all_iff)
  moreover have "strtol_sign (ds @ rest) = (False, ds @ rest)"
    using isdigit_not_sign[OF dig] d by simp
  moreover have "strtol_digits 0 (ds @ rest) = dec_value ds"
    using strtol_digits_prefix[OF ds(1) rest] by (simp add: dec_value_def)
  ultimately show ?thesis by (simp add: strtol_def)
qed

lemma set_max_jobs_accepts:
  assumes ws: "list_all isspace ws" and ds: "list_all isdigit ds" "ds \<noteq> []"
    and rest: "rest = [] \<or> \<not> isdigit (hd rest)"
    and range: "1 \<le> dec_value ds" "dec_value ds \<le> INT_MAX"
  shows "set_max_jobs (ws @ ds @ rest) = Inr (dec_value ds)"
proof -
  have "strtol (ws @ ds @ rest) = dec_value ds"
    using strtol_numeric_prefix[OF ws ds rest] range
    by (simp add: LONG_MAX_def INT_MAX_def)
  then show ?thesis
    using range by (simp add: set_max_jobs_def int_of_long_def INT_MAX_def)
qed

lemma set_max_jobs_no_digits:
  assumes "snd (strtol_sign (dropWhile isspace optarg)) = [] \<or>
           \<not> isdigit (hd (snd (strtol_sign (dropWhile isspace optarg))))"
  shows "set_max_jobs optarg = Inl (Halt 1 (''invalid -j: '' @ optarg))"
proof -
  obtain neg t where st: "strtol_sign (dropWhile isspace optarg) = (neg, t)"
    by (cases "strtol_sign (dropWhile isspace optarg)") auto
  have "strtol_digits 0 t = 0"
    using assms st by (cases t) auto
  then have "strtol optarg = 0"
    by (simp add: strtol_def st LONG_MAX_def LONG_MIN_def)
  then show ?thesis
    by (simp add: set_max_jobs_def int_of_long_def)
qed

lemma getopt_loop_operand:
  "a = [] \<or> hd a \<noteq> CHR ''-'' \<Longrightarrow> getopt_loop mj (a # as) = Inr (mj, a # as)"
  by (cases "(mj, a # as)" rule: getopt_loop.cases) auto

lemma getopt_loop_not_option:
  "\<not> option_like a \<Longrightarrow> getopt_loop mj (a # as) = Inr (mj, a # as)"
  by (cases "(mj, a # as)" rule: getopt_loop.cases) (auto simp: option_like_def)

lemma getopt_loop_gnu_not_option:
  "\<not> option_like a \<Longrightarrow> getopt_loop_gnu mj ops (a # as) = getopt_loop_gnu mj (ops @ [a]) as"
  by (cases "(mj, ops, a # as)" rule: getopt_loop_gnu.cases) (auto simp: option_like_def)

lemma getopt_loop_gnu_operands:
  "\<forall>a \<in> set as. \<not> option_like a \<Longrightarrow> getopt_loop_gnu mj ops as = Inr (mj, ops @ as)"
  by (induction as arbitrary: ops) (simp_all add: getopt_loop_gnu_not_option)

lemma getopt_loop_gnu_end_of_options:
  "\<forall>a \<in> set pre. \<not> option_like a \<Longrightarrow>
   getopt_loop_gnu mj ops (pre @ ''--'' # post) = Inr (mj, ops @ pre @ post)"
  by (induction pre arbitrary: ops) (simp_all add: getopt_loop_gnu_not_option)

lemma getopt_loop_gnu_unknown_option:
  "\<forall>a \<in> set pre. \<not> option_like a \<Longrightarrow> c \<noteq> CHR ''j'' \<Longrightarrow> c \<noteq> CHR ''-'' \<Longrightarrow>
   getopt_loop_gnu mj ops (pre @ (CHR ''-'' # c # r) # post) = Inl (Halt 1 ''getopt'')"
  by (induction pre arbitrary: ops) (simp_all add: getopt_loop_gnu_not_option)

lemma getopt_args_operands:
  "\<forall>a \<in> set as. \<not> option_like a \<Longrightarrow> getopt_args k as = Inr (1, as)"
proof (cases k)
  case Posix
  assume "\<forall>a \<in> set as. \<not> option_like a"
  then show ?thesis
    using Posix by (cases as) (simp_all add: getopt_args_def getopt_loop_not_option)
next
  case Gnu
  assume "\<forall>a \<in> set as. \<not> option_like a"
  then show ?thesis
    using Gnu by (simp add: getopt_args_def getopt_loop_gnu_operands)
qed





lemma set_max_jobs_invalid:
  "int_of_long (strtol optarg) < 1 \<Longrightarrow>
   set_max_jobs optarg = Inl (Halt 1 (''invalid -j: '' @ optarg))"
  by (simp add: set_max_jobs_def)







text \<open>
  The two kinds of \<^verbatim>\<open>getopt\<close> on the same command lines: an option of the command, a
  later \<^verbatim>\<open>--\<close>, \<^verbatim>\<open>--\<close> as the only separator, and \<^verbatim>\<open>-j\<close> after the command.
\<close>

lemma getopt_kinds_differ:
  "parse_options Posix is_separator_select [''within'', ''d'', ''ls'', ''-l''] =
     Inr \<lparr>max_jobs = 1, directories = [''d''], command = [''ls'', ''-l'']\<rparr> \<and>
   parse_options Gnu is_separator_select [''within'', ''d'', ''ls'', ''-l''] =
     Inl (Halt 1 ''getopt'') \<and>
   parse_options Gnu is_separator_select [''within'', ''d'', ''--'', ''ls'', ''-l''] =
     Inr \<lparr>max_jobs = 1, directories = [''d''], command = [''ls'', ''-l'']\<rparr> \<and>
   parse_options Posix is_separator_select
       [''within'', ''a'', ''b'', ''-'', ''echo'', ''-'', ''--'', ''x''] =
     Inr \<lparr>max_jobs = 1, directories = [''a'', ''b''],
          command = [''echo'', ''-'', ''--'', ''x'']\<rparr> \<and>
   parse_options Gnu is_separator_select
       [''within'', ''a'', ''b'', ''-'', ''echo'', ''-'', ''--'', ''x''] =
     Inr \<lparr>max_jobs = 1, directories = [''a'', ''b''], command = [''echo'', ''-'', ''x'']\<rparr> \<and>
   parse_options Posix is_separator_select [''within'', ''d'', ''--'', ''echo'', ''--''] =
     Inr \<lparr>max_jobs = 1, directories = [''d''], command = [''echo'', ''--'']\<rparr> \<and>
   parse_options Gnu is_separator_select [''within'', ''d'', ''--'', ''echo'', ''--''] =
     Inl (Halt 1 ''usage'') \<and>
   parse_options Gnu is_separator_select [''within'', ''a'', ''b'', ''--'', ''echo''] =
     Inr \<lparr>max_jobs = 1, directories = [''a''], command = [''b'', ''echo'']\<rparr> \<and>
   parse_options Gnu is_separator_select [''within'', ''d'', ''ls'', ''-j'', ''3''] =
     Inr \<lparr>max_jobs = 3, directories = [''d''], command = [''ls'']\<rparr> \<and>
   parse_options Posix is_separator_select [''within'', ''d'', ''ls'', ''-j'', ''3''] =
     Inr \<lparr>max_jobs = 1, directories = [''d''], command = [''ls'', ''-j'', ''3'']\<rparr>"
  by code_simp

lemma getopt_loop_j_separate:
  "getopt_loop mj (''-j'' # optarg # as) =
     (case set_max_jobs optarg of Inl h \<Rightarrow> Inl h | Inr mj' \<Rightarrow> getopt_loop mj' as)"
  by simp

lemma getopt_loop_j_attached:
  "optarg \<noteq> [] \<Longrightarrow> getopt_loop mj ((''-j'' @ optarg) # as) =
     (case set_max_jobs optarg of Inl h \<Rightarrow> Inl h | Inr mj' \<Rightarrow> getopt_loop mj' as)"
  by simp

lemma getopt_loop_gnu_j_separate:
  "getopt_loop_gnu mj ops (''-j'' # optarg # as) =
     (case set_max_jobs optarg of Inl h \<Rightarrow> Inl h | Inr mj' \<Rightarrow> getopt_loop_gnu mj' ops as)"
  by simp

lemma getopt_loop_gnu_j_attached:
  "optarg \<noteq> [] \<Longrightarrow> getopt_loop_gnu mj ops ((''-j'' @ optarg) # as) =
     (case set_max_jobs optarg of Inl h \<Rightarrow> Inl h | Inr mj' \<Rightarrow> getopt_loop_gnu mj' ops as)"
  by simp

lemma set_max_jobs_prefix:
  assumes ws: "list_all isspace ws" and ds: "list_all isdigit ds" "ds \<noteq> []"
    and rest: "rest = [] \<or> \<not> isdigit (hd rest)"
  shows "set_max_jobs (ws @ ds @ rest) =
           (if int_of_long (min LONG_MAX (dec_value ds)) < 1
            then Inl (Halt 1 (''invalid -j: '' @ ws @ ds @ rest))
            else Inr (int_of_long (min LONG_MAX (dec_value ds))))"
  using strtol_numeric_prefix[OF ws ds rest] by (simp add: set_max_jobs_def)

text \<open>
  Claim C10, as amended. The value of \<^verbatim>\<open>-j\<close> is read as a decimal prefix and what follows
  the digits is not looked at: an argument made of white space, digits \<open>ds\<close> and a
  rest that does not start with a digit is accepted with the limit \<open>dec_value ds\<close>
  when that value lies between 1 and \<^verbatim>\<open>INT_MAX\<close>. For any value of the digits the
  argument is judged by what the cast to \<^verbatim>\<open>int\<close> leaves of the value clamped to
  \<^verbatim>\<open>long\<close>: accepted with that number when it is at least 1, rejected otherwise. An
  argument without digits (after white space and a sign) is rejected with exit code 1.
  \<^verbatim>\<open>getopt\<close> of either kind hands the argument over in both spellings, \<^verbatim>\<open>-j N\<close> and
  \<^verbatim>\<open>-jN\<close>.
\<close>

theorem C10_numeric_prefix:
  "(list_all isspace ws \<and> list_all isdigit ds \<and> ds \<noteq> [] \<and>
    (rest = [] \<or> \<not> isdigit (hd rest)) \<longrightarrow>
      (1 \<le> dec_value ds \<and> dec_value ds \<le> INT_MAX \<longrightarrow>
         set_max_jobs (ws @ ds @ rest) = Inr (dec_value ds)) \<and>
      set_max_jobs (ws @ ds @ rest) =
        (if int_of_long (min LONG_MAX (dec_value ds)) < 1
         then Inl (Halt 1 (''invalid -j: '' @ ws @ ds @ rest))
         else Inr (int_of_long (min LONG_MAX (dec_value ds))))) \<and>
   (snd (strtol_sign (dropWhile isspace optarg)) = [] \<or>
    \<not> isdigit (hd (snd (strtol_sign (dropWhile isspace optarg)))) \<longrightarrow>
      set_max_jobs optarg = Inl (Halt 1 (''invalid -j: '' @ optarg))) \<and>
   getopt_loop mj (''-j'' # arg # as) =
     (case set_max_jobs arg of Inl h \<Rightarrow> Inl h | Inr mj' \<Rightarrow> getopt_loop mj' as) \<and>
   (arg \<noteq> [] \<longrightarrow> getopt_loop mj ((''-j'' @ arg) # as) =
     (case set_max_jobs arg of Inl h \<Rightarrow> Inl h | Inr mj' \<Rightarrow> getopt_loop mj' as)) \<and>
   getopt_loop_gnu mj ops (''-j'' # arg # as) =
     (case set_max_jobs arg of Inl h \<Rightarrow> Inl h | Inr mj' \<Rightarrow> getopt_loop_gnu mj' ops as) \<and>
   (arg \<noteq> [] \<longrightarrow> getopt_loop_gnu mj ops ((''-j'' @ arg) # as) =
     (case set_max_jobs arg of Inl h \<Rightarrow> Inl h | Inr mj' \<Rightarrow> getopt_loop_gnu mj' ops as))"
  using set_max_jobs_accepts[of ws ds rest] set_max_jobs_no_digits[of optarg]
    set_max_jobs_prefix[of ws ds rest]
    getopt_loop_j_separate[of mj arg as] getopt_loop_j_attached[of arg mj as]
    getopt_loop_gnu_j_separate[of mj ops arg as] getopt_loop_gnu_j_attached[of arg mj ops as]
  by blast

theorem C10_numeric_prefix_witness:
  "set_max_jobs ''3x'' = Inr 3 \<and>
   set_max_jobs ''x3'' = Inl (Halt 1 ''invalid -j: x3'') \<and>
   parse_options Posix is_separator_select [''within'', ''-j'', ''3x'', ''d'', ''ls''] =
     Inr \<lparr>max_jobs = 3, directories = [''d''], command = [''ls'']\<rparr> \<and>
   parse_options Gnu is_separator_select [''within'', ''-j'', ''3x'', ''d'', ''ls''] =
     Inr \<lparr>max_jobs = 3, directories = [''d''], command = [''ls'']\<rparr>"
proof -
  have a: "set_max_jobs ''3x'' = Inr 3"
    using C10_numeric_prefix[of "[]" "''3''" "''x''"]
    by (simp add: isdigit_def dec_value_def digit_val_def INT_MAX_def)
  have b: "set_max_jobs ''x3'' = Inl (Halt 1 ''invalid -j: x3'')"
    using C10_numeric_prefix[of _ _ _ "''x3''"]
    by (simp add: isdigit_def isspace_def)
  have c: "getopt_loop 1 [''-j'', ''3x'', ''d'', ''ls''] = Inr (3, [''d'', ''ls''])"
    using C10_numeric_prefix[of _ _ _ _ 1 "''3x''" "[''d'', ''ls'']"] a by simp
  have d: "getopt_loop_gnu 1 [] [''-j'', ''3x'', ''d'', ''ls''] = Inr (3, [''d'', ''ls''])"
    using C10_numeric_prefix[of _ _ _ _ 1 "''3x''" "[''d'', ''ls'']" "[]"] a by simp
  show ?thesis
    using a b c d
    by (simp add: parse_options_def getopt_args_def split_arguments_def
        is_separator_select_def)
qed

text \<open>
  The claim as it was stated accepts every numeric prefix that is at least 1. The cast
  of the \<^verbatim>\<open>long\<close> to \<^verbatim>\<open>int\<close> keeps the low 32 bits only: \<^verbatim>\<open>4294967296\<close> becomes 0 and is
  rejected.
\<close>

theorem C10_large_prefix_counterexample:
  "list_all isdigit ''4294967296'' \<and> 1 \<le> dec_value ''4294967296'' \<and>
   parse_options Gnu is_separator_select [''within'', ''-j'', ''4294967296'', ''d'', ''ls''] =
     Inl (Halt 1 ''invalid -j: 4294967296'') \<and>
   parse_options Posix is_separator_select [''within'', ''-j'', ''4294967296'', ''d'', ''ls''] =
     Inl (Halt 1 ''invalid -j: 4294967296'') \<and>
   parse_options Posix is_separator_kqueue [''within'', ''-j'', ''4294967296'', ''d'', ''ls''] =
     Inl (Halt 1 ''invalid -j: 4294967296'')"
  by code_simp

section \<open>Properties of the line prefixer\<close>

lemma run_piper_bytes_eq:
  "run_piper_bytes p out bytes =
     (p\<lparr>newline := (if bytes = [] then newline p else last bytes = CHR 0x0A)\<rparr>,
      out @ render (prefix p) (newline p) bytes)"
  by (induction bytes arbitrary: p out) auto

lemma render_lines:
  "render pre nl bytes =
     (if nl then prefixed_lines pre bytes
      else (case split_lines bytes of [] \<Rightarrow> []
            | l # ls \<Rightarrow> l @ concat (map (\<lambda>l. pre @ '': '' @ l) ls)))"
  by (induction bytes arbitrary: nl) (auto simp: prefixed_lines_def split: list.splits)

lemma run_piper_bytes_append:
  "run_piper_bytes p out (xs @ ys) =
     (case run_piper_bytes p out xs of (p', out') \<Rightarrow> run_piper_bytes p' out' ys)"
  by (induction xs arbitrary: p out) auto

lemma run_piper_chunks_concat:
  "run_piper_chunks p out chunks = run_piper_bytes p out (concat chunks)"
  unfolding run_piper_chunks_def
  by (induction chunks arbitrary: p out) (auto simp: run_piper_bytes_append split: prod.splits)

lemma run_piper_chunks_text:
  "snd (run_piper_chunks (p\<lparr>newline := True\<rparr>) out chunks) =
     out @ prefixed_lines (prefix p) (concat chunks)"
  by (simp add: run_piper_chunks_concat run_piper_bytes_eq render_lines)

section \<open>Properties of the event loops\<close>

subsection \<open>Readings of the history and of the state\<close>

lemma started_dirs_simps [simp]:
  "started_dirs [] = []"
  "started_dirs (h @ [Started d n]) = started_dirs h @ [d]"
  "started_dirs (h @ [Reaped c n]) = started_dirs h"
  "started_dirs (h @ [Eof fd]) = started_dirs h"
  by (simp_all add: started_dirs_def)

lemma reaped_statuses_simps [simp]:
  "reaped_statuses [] = []"
  "reaped_statuses (h @ [Started d n]) = reaped_statuses h"
  "reaped_statuses (h @ [Reaped c n]) = reaped_statuses h @ [c]"
  "reaped_statuses (h @ [Eof fd]) = reaped_statuses h"
  by (simp_all add: reaped_statuses_def)

lemma eof_fds_simps [simp]:
  "eof_fds [] = []"
  "eof_fds (h @ [Started d n]) = eof_fds h"
  "eof_fds (h @ [Reaped c n]) = eof_fds h"
  "eof_fds (h @ [Eof fd]) = eof_fds h @ [fd]"
  by (simp_all add: eof_fds_def)

lemma jobs_counts_simps [simp]:
  "jobs_counts [] = []"
  "jobs_counts (h @ [Started d n]) = jobs_counts h @ [n]"
  "jobs_counts (h @ [Reaped c n]) = jobs_counts h @ [n]"
  "jobs_counts (h @ [Eof fd]) = jobs_counts h"
  by (simp_all add: jobs_counts_def)

lemma write_bytes_fields [simp]:
  "directory (write_bytes a p bytes s) = directory s"
  "num_jobs (write_bytes a p bytes s) = num_jobs s"
  "status (write_bytes a p bytes s) = status s"
  "kq_procs (write_bytes a p bytes s) = kq_procs s"
  "allocated (write_bytes a p bytes s) = allocated s"
  "open_pipes (write_bytes a p bytes s) = open_pipes s"
  "history (write_bytes a p bytes s) = history s"
  "children (write_bytes a p bytes s) = children s"
  "pipers (write_bytes a p bytes s) =
     store_piper a (fst (run_piper_bytes p (stream_text (out_file p) s) bytes)) (pipers s)"
  by (simp_all add: write_bytes_def set_stream_text_def split: prod.splits stream.splits)

lemma remove_piper_fields [simp]:
  "directory (remove_piper a s) = directory s"
  "num_jobs (remove_piper a s) = num_jobs s"
  "status (remove_piper a s) = status s"
  "kq_procs (remove_piper a s) = kq_procs s"
  "open_pipes (remove_piper a s) = open_pipes s"
  "history (remove_piper a s) = history s"
  "children (remove_piper a s) = children s"
  "stdout_text (remove_piper a s) = stdout_text s"
  "stderr_text (remove_piper a s) = stderr_text s"
  by (simp_all add: remove_piper_def)

lemma unlink_absent: "a \<notin> fst ` set ps \<Longrightarrow> unlink a ps = ps"
  by (induction ps) auto

lemma remove_piper_pipers [simp]: "pipers (remove_piper a s) = unlink a (pipers s)"
  by (simp add: remove_piper_def unlink_absent)

lemma store_piper_keys [simp]: "map fst (store_piper a p ps) = map fst ps"
  by (induction ps) auto

lemma store_piper_empty [simp]: "store_piper a p ps = [] \<longleftrightarrow> ps = []"
  by (cases ps) (auto split: if_splits)

lemma map_of_store_piper_same:
  "map_of ps a = Some q \<Longrightarrow> map_of (store_piper a p ps) a = Some p"
  by (induction ps) (auto split: if_splits)

lemma map_of_store_piper_other:
  "b \<noteq> a \<Longrightarrow> map_of (store_piper a p ps) b = map_of ps b"
  by (induction ps) auto

lemma store_piper_fd_list:
  "map_of ps a = Some q \<Longrightarrow> in_fd p = in_fd q \<Longrightarrow>
   map (\<lambda>x. in_fd (snd x)) (store_piper a p ps) = map (\<lambda>x. in_fd (snd x)) ps"
  by (induction ps) (auto split: if_splits)

lemma run_piper_bytes_in_fd [simp]: "in_fd (fst (run_piper_bytes p out bytes)) = in_fd p"
  by (simp add: run_piper_bytes_eq)

lemma unlink_split:
  "map_of ps a = Some q \<Longrightarrow> \<exists>xs ys. ps = xs @ (a, q) # ys \<and> unlink a ps = xs @ ys"
proof (induction ps)
  case Nil
  then show ?case by simp
next
  case (Cons x ps)
  obtain b r where x: "x = (b, r)" by (cases x)
  show ?case
  proof (cases "b = a")
    case True
    then have "x # ps = [] @ (a, q) # ps \<and> unlink a (x # ps) = [] @ ps"
      using Cons.prems x by simp
    then show ?thesis by blast
  next
    case False
    then have "map_of ps a = Some q" using Cons.prems x by simp
    from Cons.IH[OF this] obtain xs ys where "ps = xs @ (a, q) # ys" "unlink a ps = xs @ ys"
      by blast
    then have "x # ps = (x # xs) @ (a, q) # ys \<and> unlink a (x # ps) = (x # xs) @ ys"
      using False x by simp
    then show ?thesis by blast
  qed
qed

lemma unlink_fds:
  assumes "map_of ps a = Some q"
  shows "insert (in_fd q) (set (map (\<lambda>x. in_fd (snd x)) (unlink a ps))) =
         set (map (\<lambda>x. in_fd (snd x)) ps)"
proof -
  obtain xs ys where "ps = xs @ (a, q) # ys" "unlink a ps = xs @ ys"
    using unlink_split[OF assms] by blast
  then show ?thesis by auto
qed

lemma piper_fds_write_bytes [simp]:
  "map_of (pipers s) a = Some p \<Longrightarrow> piper_fds (write_bytes a p bytes s) = piper_fds s"
  by (simp add: piper_fds_def store_piper_fd_list)

lemma piper_fds_remove_piper:
  "map_of (pipers s) a = Some p \<Longrightarrow>
   insert (in_fd p) (set (piper_fds (remove_piper a s))) = set (piper_fds s)"
  by (simp add: piper_fds_def unlink_fds del: set_map)

lemma piper_fds_updates [simp]:
  "piper_fds (s\<lparr>history := h\<rparr>) = piper_fds s"
  "piper_fds (s\<lparr>num_jobs := n\<rparr>) = piper_fds s"
  "piper_fds (s\<lparr>directory := d\<rparr>) = piper_fds s"
  "piper_fds (s\<lparr>status := c\<rparr>) = piper_fds s"
  by (simp_all add: piper_fds_def)

subsection \<open>The line prefixer in the program\<close>

lemma start_piper_select_newline:
  "start_piper_select fd strm pre (PiperAt a) s = Inr s' \<Longrightarrow>
   map_of (pipers s') a =
     Some \<lparr>in_fd = fd, out_file = strm, prefix = pre, newline = True\<rparr>"
  by (auto simp: start_piper_select_def)

lemma start_piper_kqueue_newline:
  "start_piper_kqueue fd strm pre (PiperAtK a) s = Inr s' \<Longrightarrow>
   map_of (pipers s') a =
     Some \<lparr>in_fd = fd, out_file = strm, prefix = pre, newline = True\<rparr>"
  by (auto simp: start_piper_kqueue_def)

lemma run_piper_bytes_out_file [simp]: "out_file (fst (run_piper_bytes p out bytes)) = out_file p"
  by (simp add: run_piper_bytes_eq)

lemma stream_text_write_bytes:
  "stream_text (out_file p) (write_bytes a p bytes s) =
     snd (run_piper_bytes p (stream_text (out_file p) s) bytes)"
  by (cases "out_file p")
     (simp_all add: write_bytes_def stream_text_def set_stream_text_def split: prod.splits)

lemma run_piper_chunks_Cons:
  "run_piper_chunks p out (c # cs) =
     run_piper_chunks (fst (run_piper_bytes p out c)) (snd (run_piper_bytes p out c)) cs"
  by (simp add: run_piper_chunks_def split: prod.splits)

lemma run_piper_select_chunks:
  "map_of (pipers s) a = Some p \<Longrightarrow> list_all (\<lambda>c. c \<noteq> []) chunks \<Longrightarrow>
   \<exists>s'. run_piper_select a (map ReadBytes chunks @ [ReadFail EAGAIN]) s = Ok s' \<and>
        map_of (pipers s') a =
          Some (fst (run_piper_chunks p (stream_text (out_file p) s) chunks)) \<and>
        stream_text (out_file p) s' =
          snd (run_piper_chunks p (stream_text (out_file p) s) chunks)"
proof (induction chunks arbitrary: s p)
  case Nil
  then show ?case by (simp add: run_piper_chunks_def)
next
  case (Cons c cs)
  let ?t = "stream_text (out_file p) s"
  let ?p1 = "fst (run_piper_bytes p ?t c)"
  let ?s1 = "write_bytes a p c s"
  have m: "map_of (pipers ?s1) a = Some ?p1"
    using Cons.prems(1) by (simp add: map_of_store_piper_same)
  have t: "stream_text (out_file ?p1) ?s1 = snd (run_piper_bytes p ?t c)"
    by (simp add: stream_text_write_bytes)
  from Cons.IH[OF m] Cons.prems(2)
  obtain s' where "run_piper_select a (map ReadBytes cs @ [ReadFail EAGAIN]) ?s1 = Ok s'"
    "map_of (pipers s') a = Some (fst (run_piper_chunks ?p1 (stream_text (out_file ?p1) ?s1) cs))"
    "stream_text (out_file ?p1) s' = snd (run_piper_chunks ?p1 (stream_text (out_file ?p1) ?s1) cs)"
    by auto
  then show ?case
    using Cons.prems t by (simp add: run_piper_chunks_Cons)
qed

lemma start_jobs_select_full:
  "\<not> (num_jobs s < max_jobs opts \<and> directory s < length (directories opts)) \<Longrightarrow>
   start_jobs_select opts es s = Ok s"
  by (cases es) auto

lemma start_jobs_kqueue_full:
  "\<not> (num_jobs s < max_jobs opts \<and> directory s < length (directories opts)) \<Longrightarrow>
   start_jobs_kqueue opts es s = Ok s"
  by (cases es) auto

lemma run_piper_kqueue_data:
  "map_of (pipers s) a = Some p \<Longrightarrow>
   run_piper_kqueue a n True (ReadBytes bytes) s = Ok (write_bytes a p bytes s) \<and>
   map_of (pipers (write_bytes a p bytes s)) a =
     Some (fst (run_piper_bytes p (stream_text (out_file p) s) bytes)) \<and>
   stream_text (out_file p) (write_bytes a p bytes s) =
     snd (run_piper_bytes p (stream_text (out_file p) s) bytes)"
  by (simp add: run_piper_kqueue_def map_of_store_piper_same stream_text_write_bytes)

lemma handle_event_kqueue_data:
  "map_of (pipers s) a = Some p \<Longrightarrow> event_k env = Readable a n False \<Longrightarrow> malloc_k env \<Longrightarrow>
   read_k env = ReadBytes bytes \<Longrightarrow>
   handle_event_kqueue env s = Ok (write_bytes a p bytes s)"
  by (simp add: handle_event_kqueue_def run_piper_kqueue_def)

lemma loop_kqueue_chunks:
  "map_of (pipers s) a = Some p \<Longrightarrow> num_jobs s \<noteq> 0 \<Longrightarrow>
   \<not> (num_jobs s < max_jobs opts \<and> directory s < length (directories opts)) \<Longrightarrow>
   \<exists>s'. loop_kqueue opts (chunk_events a js chunks) s = Wait s' \<and>
        map_of (pipers s') a =
          Some (fst (run_piper_chunks p (stream_text (out_file p) s) chunks)) \<and>
        stream_text (out_file p) s' =
          snd (run_piper_chunks p (stream_text (out_file p) s) chunks)"
proof (induction chunks arbitrary: s p)
  case Nil
  then show ?case
    by (simp add: run_piper_chunks_def chunk_events_def loop_condition_kqueue_def)
next
  case (Cons c cs)
  let ?t = "stream_text (out_file p) s"
  let ?p1 = "fst (run_piper_bytes p ?t c)"
  let ?s1 = "write_bytes a p c s"
  let ?env = "\<lparr>jobs_k = js, event_k = Readable a (length c) False, malloc_k = True,
               read_k = ReadBytes c, delete_k = True\<rparr>"
  have m: "map_of (pipers ?s1) a = Some ?p1"
    using Cons.prems(1) by (simp add: map_of_store_piper_same)
  have t: "stream_text (out_file ?p1) ?s1 = snd (run_piper_bytes p ?t c)"
    by (simp add: stream_text_write_bytes)
  have turn: "turn_of_kqueue opts ?env s = Ok ?s1"
    using Cons.prems
    by (simp add: turn_of_kqueue_def start_jobs_kqueue_full handle_event_kqueue_data)
  have step: "loop_kqueue opts (chunk_events a js (c # cs)) s =
      loop_kqueue opts (chunk_events a js cs) ?s1"
    using Cons.prems(2) turn by (simp add: chunk_events_def loop_condition_kqueue_def)
  have "num_jobs ?s1 \<noteq> 0"
    "\<not> (num_jobs ?s1 < max_jobs opts \<and> directory ?s1 < length (directories opts))"
    using Cons.prems(2,3) by simp_all
  from Cons.IH[OF m this]
  obtain s' where "loop_kqueue opts (chunk_events a js cs) ?s1 = Wait s'"
    "map_of (pipers s') a = Some (fst (run_piper_chunks ?p1 (stream_text (out_file ?p1) ?s1) cs))"
    "stream_text (out_file ?p1) s' = snd (run_piper_chunks ?p1 (stream_text (out_file ?p1) ?s1) cs)"
    by auto
  then show ?case
    using step t by (simp add: run_piper_chunks_Cons)
qed

text \<open>
  Claim C4. The loop of \<^verbatim>\<open>run_piper\<close> takes the bytes in order; before a byte it writes
  the prefix and \<open>: \<close> when the flag is set, and after the byte the flag is set if and
  only if the byte is the line terminator. Both revisions start a piper with the flag
  set. So the text that a new piper writes for the chunks of any sequence of reads is
  the text of their concatenation with every line prefixed once, at its first byte;
  how the bytes were cut into chunks does not matter. In the program the flag is kept
  in the piper between the reads, in both revisions:
  \<^item> \<^verbatim>\<open>run_piper\<close> of the select revision, over reads that deliver the chunks and then
    would block, leaves in the piper and on its stream what the loop gives for the
    chunks one after the other;
  \<^item> \<^verbatim>\<open>run_piper\<close> of the kqueue revision, for the one read it makes, writes what the
    loop gives for the bytes read, to the stream of the piper, and leaves the piper with
    the flag the loop gives;
  \<^item> the loop of \<^verbatim>\<open>main\<close> of the kqueue revision, over events that report the chunks one
    by one, leaves in the piper and on its stream what the loop gives for the chunks
    one after the other.
\<close>

theorem C4_line_prefixer:
  "run_piper_bytes p out (c # cs) =
     run_piper_bytes (p\<lparr>newline := (c = CHR 0x0A)\<rparr>)
       ((if newline p then out @ prefix p @ '': '' else out) @ [c]) cs \<and>
   fst (run_piper_bytes p out bytes) =
     p\<lparr>newline := (if bytes = [] then newline p else last bytes = CHR 0x0A)\<rparr> \<and>
   (start_piper_select fd strm pre (PiperAt a) s = Inr s' \<longrightarrow>
      map_of (pipers s') a =
        Some \<lparr>in_fd = fd, out_file = strm, prefix = pre, newline = True\<rparr>) \<and>
   (start_piper_kqueue fd strm pre (PiperAtK a) s = Inr s' \<longrightarrow>
      map_of (pipers s') a =
        Some \<lparr>in_fd = fd, out_file = strm, prefix = pre, newline = True\<rparr>) \<and>
   snd (run_piper_chunks (p\<lparr>newline := True\<rparr>) out chunks) =
     out @ prefixed_lines (prefix p) (concat chunks) \<and>
   (map_of (pipers s) a = Some p \<and> list_all (\<lambda>c. c \<noteq> []) chunks \<longrightarrow>
      (\<exists>s2. run_piper_select a (map ReadBytes chunks @ [ReadFail EAGAIN]) s = Ok s2 \<and>
            map_of (pipers s2) a =
              Some (fst (run_piper_chunks p (stream_text (out_file p) s) chunks)) \<and>
            stream_text (out_file p) s2 =
              snd (run_piper_chunks p (stream_text (out_file p) s) chunks))) \<and>
   (map_of (pipers s) a = Some p \<longrightarrow>
      run_piper_kqueue a n True (ReadBytes bytes) s = Ok (write_bytes a p bytes s) \<and>
      map_of (pipers (write_bytes a p bytes s)) a =
        Some (fst (run_piper_bytes p (stream_text (out_file p) s) bytes)) \<and>
      stream_text (out_file p) (write_bytes a p bytes s) =
        snd (run_piper_bytes p (stream_text (out_file p) s) bytes)) \<and>
   (map_of (pipers s) a = Some p \<and> num_jobs s \<noteq> 0 \<and>
    \<not> (num_jobs s < max_jobs opts \<and> directory s < length (directories opts)) \<longrightarrow>
      (\<exists>s2. loop_kqueue opts (chunk_events a js chunks) s = Wait s2 \<and>
            map_of (pipers s2) a =
              Some (fst (run_piper_chunks p (stream_text (out_file p) s) chunks)) \<and>
            stream_text (out_file p) s2 =
              snd (run_piper_chunks p (stream_text (out_file p) s) chunks)))"
proof -
  have k1: "map_of (pipers s) a = Some p \<longrightarrow>
      run_piper_kqueue a n True (ReadBytes bytes) s = Ok (write_bytes a p bytes s) \<and>
      map_of (pipers (write_bytes a p bytes s)) a =
        Some (fst (run_piper_bytes p (stream_text (out_file p) s) bytes)) \<and>
      stream_text (out_file p) (write_bytes a p bytes s) =
        snd (run_piper_bytes p (stream_text (out_file p) s) bytes)"
    using run_piper_kqueue_data[of s a p n bytes] by blast
  have k2: "map_of (pipers s) a = Some p \<and> num_jobs s \<noteq> 0 \<and>
    \<not> (num_jobs s < max_jobs opts \<and> directory s < length (directories opts)) \<longrightarrow>
      (\<exists>s2. loop_kqueue opts (chunk_events a js chunks) s = Wait s2 \<and>
            map_of (pipers s2) a =
              Some (fst (run_piper_chunks p (stream_text (out_file p) s) chunks)) \<and>
            stream_text (out_file p) s2 =
              snd (run_piper_chunks p (stream_text (out_file p) s) chunks))"
    using loop_kqueue_chunks[of s a p opts js chunks] by blast
  have rest: "run_piper_bytes p out (c # cs) =
     run_piper_bytes (p\<lparr>newline := (c = CHR 0x0A)\<rparr>)
       ((if newline p then out @ prefix p @ '': '' else out) @ [c]) cs \<and>
   fst (run_piper_bytes p out bytes) =
     p\<lparr>newline := (if bytes = [] then newline p else last bytes = CHR 0x0A)\<rparr> \<and>
   (start_piper_select fd strm pre (PiperAt a) s = Inr s' \<longrightarrow>
      map_of (pipers s') a =
        Some \<lparr>in_fd = fd, out_file = strm, prefix = pre, newline = True\<rparr>) \<and>
   (start_piper_kqueue fd strm pre (PiperAtK a) s = Inr s' \<longrightarrow>
      map_of (pipers s') a =
        Some \<lparr>in_fd = fd, out_file = strm, prefix = pre, newline = True\<rparr>) \<and>
   snd (run_piper_chunks (p\<lparr>newline := True\<rparr>) out chunks) =
     out @ prefixed_lines (prefix p) (concat chunks) \<and>
   (map_of (pipers s) a = Some p \<and> list_all (\<lambda>c. c \<noteq> []) chunks \<longrightarrow>
      (\<exists>s2. run_piper_select a (map ReadBytes chunks @ [ReadFail EAGAIN]) s = Ok s2 \<and>
            map_of (pipers s2) a =
              Some (fst (run_piper_chunks p (stream_text (out_file p) s) chunks)) \<and>
            stream_text (out_file p) s2 =
              snd (run_piper_chunks p (stream_text (out_file p) s) chunks)))"
    using start_piper_select_newline[of fd strm pre a s s']
      start_piper_kqueue_newline[of fd strm pre a s s']
      run_piper_chunks_text[of p out chunks]
      run_piper_select_chunks[of s a p chunks]
    by (simp add: run_piper_bytes_eq)
  show ?thesis using rest k1 k2 by blast
qed

theorem C4_line_prefixer_witness:
  "snd (run_piper_chunks
          \<lparr>in_fd = 3, out_file = Stdout, prefix = ''d1'', newline = True\<rparr> []
          [''he'', ''llo'' @ [CHR 0x0A] @ ''wor'', ''ld'' @ [CHR 0x0A]]) =
     ''d1: hello'' @ [CHR 0x0A] @ ''d1: world'' @ [CHR 0x0A] \<and>
   map_of (pipers (projr (start_piper_select 3 Stdout ''d1'' (PiperAt 7) initial_state))) 7 =
     Some \<lparr>in_fd = 3, out_file = Stdout, prefix = ''d1'', newline = True\<rparr> \<and>
   (\<exists>s2. run_piper_select 7
           (map ReadBytes [''he'', ''llo'' @ [CHR 0x0A] @ ''wor''] @ [ReadFail EAGAIN])
           (projr (start_piper_select 3 Stdout ''d1'' (PiperAt 7) initial_state)) = Ok s2 \<and>
         stdout_text s2 = ''d1: hello'' @ [CHR 0x0A] @ ''d1: wor'' \<and>
         map_of (pipers s2) 7 =
           Some \<lparr>in_fd = 3, out_file = Stdout, prefix = ''d1'', newline = False\<rparr>) \<and>
   (\<exists>s1 s2.
      start_jobs_kqueue \<lparr>max_jobs = 1, directories = [''d1''], command = [''cat'']\<rparr>
        [ForkedK 100 3 4 (PiperAtK 1) (PiperAtK 2)] initial_state = Ok s1 \<and>
      loop_kqueue \<lparr>max_jobs = 1, directories = [''d1''], command = [''cat'']\<rparr>
        (chunk_events 1 [] [''he'', ''llo'' @ [CHR 0x0A] @ ''wor'']) s1 = Wait s2 \<and>
      stdout_text s2 = ''d1: hello'' @ [CHR 0x0A] @ ''d1: wor'' \<and>
      stderr_text s2 = [] \<and>
      map_of (pipers s2) 1 =
        Some \<lparr>in_fd = 3, out_file = Stdout, prefix = ''d1'', newline = False\<rparr>)"
proof -
  let ?p = "\<lparr>in_fd = 3, out_file = Stdout, prefix = ''d1'', newline = True\<rparr>"
  let ?s = "projr (start_piper_select 3 Stdout ''d1'' (PiperAt 7) initial_state)"
  let ?opts = "\<lparr>max_jobs = 1, directories = [''d1''], command = [''cat'']\<rparr>"
  let ?k = "\<lparr>directory = 1, num_jobs = 1, status = 0,
      pipers =
        [(2, \<lparr>in_fd = 4, out_file = Stderr, prefix = ''d1'', newline = True\<rparr>),
         (1, \<lparr>in_fd = 3, out_file = Stdout, prefix = ''d1'', newline = True\<rparr>)],
      kq_procs = [100], allocated = [2, 1], open_pipes = [4, 3],
      stdout_text = [], stderr_text = [], history = [Started ''d1'' 1],
      children = [\<lparr>child_pid = 100, child_dir = ''d1'', child_argv = [''cat'']\<rparr>]\<rparr>"
  note inst = C4_line_prefixer[where p = ?p and out = "[]" and fd = 3 and strm = Stdout
      and pre = "''d1''" and a = 7 and s' = ?s]
  have st: "start_piper_select 3 Stdout ''d1'' (PiperAt 7) initial_state = Inr ?s"
    by (simp add: start_piper_select_def)
  have written: "snd (run_piper_chunks ?p []
        [''he'', ''llo'' @ [CHR 0x0A] @ ''wor'', ''ld'' @ [CHR 0x0A]]) =
      ''d1: hello'' @ [CHR 0x0A] @ ''d1: world'' @ [CHR 0x0A]"
    using inst[where chunks = "[''he'', ''llo'' @ [CHR 0x0A] @ ''wor'', ''ld'' @ [CHR 0x0A]]"]
    by (simp add: prefixed_lines_def)
  have flag: "map_of (pipers ?s) 7 = Some ?p"
    using inst[where s = initial_state] st by blast
  have "\<exists>s2. run_piper_select 7
           (map ReadBytes [''he'', ''llo'' @ [CHR 0x0A] @ ''wor''] @ [ReadFail EAGAIN]) ?s = Ok s2 \<and>
         map_of (pipers s2) 7 =
           Some (fst (run_piper_chunks ?p (stream_text (out_file ?p) ?s)
             [''he'', ''llo'' @ [CHR 0x0A] @ ''wor''])) \<and>
         stream_text (out_file ?p) s2 =
           snd (run_piper_chunks ?p (stream_text (out_file ?p) ?s)
             [''he'', ''llo'' @ [CHR 0x0A] @ ''wor''])"
    using inst[where s = ?s and chunks = "[''he'', ''llo'' @ [CHR 0x0A] @ ''wor'']"] flag
    by simp
  then have run: "\<exists>s2. run_piper_select 7
           (map ReadBytes [''he'', ''llo'' @ [CHR 0x0A] @ ''wor''] @ [ReadFail EAGAIN]) ?s = Ok s2 \<and>
         stdout_text s2 = ''d1: hello'' @ [CHR 0x0A] @ ''d1: wor'' \<and>
         map_of (pipers s2) 7 =
           Some \<lparr>in_fd = 3, out_file = Stdout, prefix = ''d1'', newline = False\<rparr>"
    by (simp add: run_piper_chunks_def stream_text_def start_piper_select_def
        initial_state_def)
  have sk: "start_jobs_kqueue ?opts [ForkedK 100 3 4 (PiperAtK 1) (PiperAtK 2)] initial_state =
      Ok ?k"
    by code_simp
  have mk: "map_of (pipers ?k) 1 = Some ?p" "num_jobs ?k \<noteq> 0"
    "\<not> (num_jobs ?k < max_jobs ?opts \<and> directory ?k < length (directories ?opts))"
    by simp_all
  have "\<exists>s2. loop_kqueue ?opts (chunk_events 1 [] [''he'', ''llo'' @ [CHR 0x0A] @ ''wor'']) ?k =
           Wait s2 \<and>
         map_of (pipers s2) 1 =
           Some (fst (run_piper_chunks ?p (stream_text (out_file ?p) ?k)
             [''he'', ''llo'' @ [CHR 0x0A] @ ''wor''])) \<and>
         stream_text (out_file ?p) s2 =
           snd (run_piper_chunks ?p (stream_text (out_file ?p) ?k)
             [''he'', ''llo'' @ [CHR 0x0A] @ ''wor''])"
    using C4_line_prefixer[where p = ?p and a = 1 and s = ?k and opts = ?opts and js = "[]"
        and chunks = "[''he'', ''llo'' @ [CHR 0x0A] @ ''wor'']"] mk
    by blast
  then obtain s2 where k2:
    "loop_kqueue ?opts (chunk_events 1 [] [''he'', ''llo'' @ [CHR 0x0A] @ ''wor'']) ?k = Wait s2"
    "stdout_text s2 = ''d1: hello'' @ [CHR 0x0A] @ ''d1: wor''"
    "map_of (pipers s2) 1 =
       Some \<lparr>in_fd = 3, out_file = Stdout, prefix = ''d1'', newline = False\<rparr>"
    by (auto simp: run_piper_chunks_def stream_text_def)
  have "loop_kqueue ?opts (chunk_events 1 [] [''he'', ''llo'' @ [CHR 0x0A] @ ''wor'']) ?k =
      Wait (?k\<lparr>pipers :=
          [(2, \<lparr>in_fd = 4, out_file = Stderr, prefix = ''d1'', newline = True\<rparr>),
           (1, \<lparr>in_fd = 3, out_file = Stdout, prefix = ''d1'', newline = False\<rparr>)],
        stdout_text := ''d1: hello'' @ [CHR 0x0A] @ ''d1: wor''\<rparr>)"
    by code_simp
  then have e2: "stderr_text s2 = []" using k2(1) by auto
  have kq: "\<exists>s1 s2. start_jobs_kqueue ?opts [ForkedK 100 3 4 (PiperAtK 1) (PiperAtK 2)]
        initial_state = Ok s1 \<and>
      loop_kqueue ?opts (chunk_events 1 [] [''he'', ''llo'' @ [CHR 0x0A] @ ''wor'']) s1 = Wait s2 \<and>
      stdout_text s2 = ''d1: hello'' @ [CHR 0x0A] @ ''d1: wor'' \<and>
      stderr_text s2 = [] \<and>
      map_of (pipers s2) 1 =
        Some \<lparr>in_fd = 3, out_file = Stdout, prefix = ''d1'', newline = False\<rparr>"
    using sk k2 e2 by blast
  show ?thesis using written flag run kq by blast
qed

subsection \<open>The job counter in the select revision\<close>

lemma holds_simps [simp]:
  "holds P (Ok s) = P s" "holds P (Wait s) = P s" "holds P (Die h) = True"
  by (simp_all add: holds_def)

lemma start_piper_select_fields:
  "start_piper_select fd strm pre env s = Inr s' \<Longrightarrow>
     directory s' = directory s \<and> num_jobs s' = num_jobs s \<and> status s' = status s \<and>
     history s' = history s \<and> open_pipes s' = open_pipes s \<and>
     children s' = children s \<and>
     (\<exists>a. env = PiperAt a \<and>
        pipers s' = (a, \<lparr>in_fd = fd, out_file = strm, prefix = pre, newline = True\<rparr>) # pipers s
        \<and> allocated s' = a # allocated s)"
  by (auto simp: start_piper_select_def split: piper_env_select.splits)

lemma start_job_select_fields:
  "start_job_select cmd dir env s = Inr s' \<Longrightarrow>
     directory s' = directory s \<and> num_jobs s' = num_jobs s \<and> status s' = status s \<and>
     history s' = history s \<and>
     (\<exists>pid r_out r_err a_out a_err.
        env = Forked pid r_out r_err (PiperAt a_out) (PiperAt a_err) \<and>
        children s' =
          children s @ [\<lparr>child_pid = pid, child_dir = dir, child_argv = cmd\<rparr>] \<and>
        open_pipes s' = r_err # r_out # open_pipes s \<and>
        pipers s' =
          (a_err, \<lparr>in_fd = r_err, out_file = Stderr, prefix = dir, newline = True\<rparr>) #
          (a_out, \<lparr>in_fd = r_out, out_file = Stdout, prefix = dir, newline = True\<rparr>) #
          pipers s \<and>
        piper_fds s' = r_err # r_out # piper_fds s \<and>
        allocated s' = a_err # a_out # allocated s)"
  by (auto simp: start_job_select_def piper_fds_def split: job_env_select.splits sum.splits
           dest!: start_piper_select_fields)

lemma take_Suc_nth: "i < length xs \<Longrightarrow> take (Suc i) xs = take i xs @ [xs ! i]"
  by (simp add: take_Suc_conv_app_nth)

lemma start_jobs_select_jobs_inv:
  "jobs_inv opts s \<Longrightarrow> holds (jobs_inv opts) (start_jobs_select opts es s)"
proof (induction es arbitrary: s)
  case Nil
  then show ?case by simp
next
  case (Cons e es)
  show ?case
  proof (cases "num_jobs s < max_jobs opts \<and> directory s < length (directories opts)")
    case False
    then show ?thesis using Cons.prems by auto
  next
    case True
    show ?thesis
    proof (cases "start_job_select (command opts) (directories opts ! directory s) e s")
      case (Inl h)
      then show ?thesis using True by simp
    next
      case (Inr s')
      note f = start_job_select_fields[OF Inr]
      have "jobs_inv opts (s'\<lparr>num_jobs := num_jobs s' + 1, directory := directory s' + 1,
              history := history s' @
                [Started (directories opts ! directory s') (num_jobs s' + 1)]\<rparr>)"
        using Cons.prems True f by (auto simp: jobs_inv_def take_Suc_nth)
      from Cons.IH[OF this] show ?thesis using True Inr by simp
    qed
  qed
qed

lemma holds_mono: "holds P r \<Longrightarrow> (\<And>x. P x \<Longrightarrow> Q x) \<Longrightarrow> holds Q r"
  by (cases r) auto

lemma frame_refl [simp]: "frame s s"
  by (simp add: frame_def)

lemma frame_trans: "frame s s1 \<Longrightarrow> frame s1 s2 \<Longrightarrow> frame s s2"
  by (simp add: frame_def)

lemma frame_jobs_inv: "frame s s' \<Longrightarrow> jobs_inv opts s \<Longrightarrow> jobs_inv opts s'"
  by (simp add: frame_def jobs_inv_def)

lemma run_piper_select_frame: "holds (frame s) (run_piper_select a rs s)"
proof (induction rs arbitrary: s)
  case Nil
  then show ?case by simp
next
  case (Cons r rs)
  show ?case
  proof (cases "map_of (pipers s) a")
    case None
    then show ?thesis by simp
  next
    case (Some p)
    show ?thesis
    proof (cases r)
      case (ReadBytes bytes)
      show ?thesis
      proof (cases "bytes = []")
        case True
        then show ?thesis using Some ReadBytes by (simp add: frame_def)
      next
        case False
        have "frame s (write_bytes a p bytes s)" by (simp add: frame_def)
        then have "holds (frame s) (run_piper_select a rs (write_bytes a p bytes s))"
          using Cons.IH[of "write_bytes a p bytes s"] by (blast intro: holds_mono frame_trans)
        then show ?thesis using Some ReadBytes False by simp
      qed
    next
      case (ReadFail e)
      then show ?thesis using Some by simp
    qed
  qed
qed

lemma run_pipers_select_frame: "holds (frame s) (run_pipers_select as ready rd s)"
proof (induction as arbitrary: s)
  case Nil
  then show ?case by simp
next
  case (Cons a as)
  show ?case
  proof (cases "map_of (pipers s) a")
    case None
    then show ?thesis by simp
  next
    case (Some p)
    show ?thesis
    proof (cases "in_fd p \<in> set ready")
      case False
      then show ?thesis using Some Cons.IH[of s] by simp
    next
      case True
      have h: "holds (frame s) (run_piper_select a (reads_on rd (in_fd p)) s)"
        by (rule run_piper_select_frame)
      show ?thesis
      proof (cases "run_piper_select a (reads_on rd (in_fd p)) s")
        case (Ok s1)
        then have "frame s s1" using h by simp
        then have "holds (frame s) (run_pipers_select as ready rd s1)"
          using Cons.IH[of s1] by (blast intro: holds_mono frame_trans)
        then show ?thesis using Some True Ok by simp
      next
        case (Die h)
        then show ?thesis using Some True by simp
      next
        case (Wait s1)
        then show ?thesis using Some True h by simp
      qed
    qed
  qed
qed

lemma wait_for_data_frame: "holds (frame s) (wait_for_data sel rd s)"
  by (cases sel) (simp_all add: wait_for_data_def run_pipers_select_frame)

lemma collect_exits_jobs_inv:
  "jobs_inv opts s \<Longrightarrow> holds (jobs_inv opts) (collect_exits ws s)"
proof (induction ws arbitrary: s)
  case Nil
  then show ?case by simp
next
  case (Cons w ws)
  show ?case
  proof (cases "num_jobs s \<noteq> 0")
    case False
    then show ?thesis using Cons.prems by simp
  next
    case True
    show ?thesis
    proof (cases w)
      case WaitFails
      then show ?thesis using True by simp
    next
      case WaitNone
      then show ?thesis using True Cons.prems by simp
    next
      case (WaitChild pid c)
      have "jobs_inv opts (s\<lparr>num_jobs := num_jobs s - 1,
              status := (if c \<noteq> 0 then 1 else status s),
              history := history s @ [Reaped c (num_jobs s - 1)]\<rparr>)"
        using Cons.prems by (simp add: jobs_inv_def)
      from Cons.IH[OF this] show ?thesis using True WaitChild by simp
    qed
  qed
qed

lemma turn_of_select_preserves:
  assumes fill: "\<And>es s. P s \<Longrightarrow> holds P (start_jobs_select opts es s)"
    and data: "\<And>sel rd s. P s \<Longrightarrow> holds P (wait_for_data sel rd s)"
    and reap: "\<And>ws s. P s \<Longrightarrow> holds P (collect_exits ws s)"
    and "P s"
  shows "holds P (turn_of_select opts env s)"
proof (cases "start_jobs_select opts (jobs env) s")
  case (Ok s1)
  then have p1: "P s1" using fill[OF \<open>P s\<close>, of "jobs env"] by simp
  show ?thesis
  proof (cases "wait_for_data (selected env) (reads env) s1")
    case (Ok s2)
    then have "P s2" using data[OF p1, of "selected env" "reads env"] by simp
    then show ?thesis
      using \<open>start_jobs_select opts (jobs env) s = Ok s1\<close> Ok reap
      by (simp add: turn_of_select_def)
  next
    case (Die h)
    then show ?thesis
      using \<open>start_jobs_select opts (jobs env) s = Ok s1\<close> by (simp add: turn_of_select_def)
  next
    case (Wait s2)
    then have "P s2" using data[OF p1, of "selected env" "reads env"] by simp
    then show ?thesis
      using \<open>start_jobs_select opts (jobs env) s = Ok s1\<close> Wait
      by (simp add: turn_of_select_def)
  qed
next
  case (Die h)
  then show ?thesis by (simp add: turn_of_select_def)
next
  case (Wait s1)
  then show ?thesis
    using fill[OF \<open>P s\<close>, of "jobs env"] by (simp add: turn_of_select_def)
qed

lemma loop_select_preserves:
  assumes turn: "\<And>env s. P s \<Longrightarrow> holds P (turn_of_select opts env s)"
  shows "P s \<Longrightarrow> holds P (loop_select opts envs s)"
proof (induction envs arbitrary: s)
  case Nil
  then show ?case by simp
next
  case (Cons env envs)
  show ?case
  proof (cases "loop_condition_select opts s")
    case False
    then show ?thesis using Cons.prems by simp
  next
    case True
    have t: "holds P (turn_of_select opts env s)"
      by (rule turn[OF Cons.prems])
    show ?thesis
    proof (cases "turn_of_select opts env s")
      case (Ok s')
      then show ?thesis using True t Cons.IH[of s'] by simp
    next
      case (Die h)
      then show ?thesis using True by simp
    next
      case (Wait s')
      then show ?thesis using True t by simp
    qed
  qed
qed

lemma wait_for_data_jobs_inv:
  "jobs_inv opts s \<Longrightarrow> holds (jobs_inv opts) (wait_for_data sel rd s)"
  using wait_for_data_frame[of s sel rd] by (rule holds_mono) (simp add: frame_jobs_inv)

lemma loop_select_jobs_inv:
  "jobs_inv opts s \<Longrightarrow> holds (jobs_inv opts) (loop_select opts envs s)"
  by (intro loop_select_preserves turn_of_select_preserves start_jobs_select_jobs_inv
      wait_for_data_jobs_inv collect_exits_jobs_inv)

subsection \<open>Status, counter and pipes in the select revision\<close>

lemma start_jobs_select_select_inv:
  "select_inv s \<Longrightarrow> holds select_inv (start_jobs_select opts es s)"
proof (induction es arbitrary: s)
  case Nil
  then show ?case by simp
next
  case (Cons e es)
  show ?case
  proof (cases "num_jobs s < max_jobs opts \<and> directory s < length (directories opts)")
    case False
    then show ?thesis using Cons.prems by auto
  next
    case True
    show ?thesis
    proof (cases "start_job_select (command opts) (directories opts ! directory s) e s")
      case (Inl h)
      then show ?thesis using True by simp
    next
      case (Inr s')
      note f = start_job_select_fields[OF Inr]
      have "select_inv (s'\<lparr>num_jobs := num_jobs s' + 1, directory := directory s' + 1,
              history := history s' @
                [Started (directories opts ! directory s') (num_jobs s' + 1)]\<rparr>)"
        using Cons.prems f by (auto simp: select_inv_def)
      from Cons.IH[OF this] show ?thesis using True Inr by simp
    qed
  qed
qed

lemma run_piper_select_select_inv:
  "select_inv s \<Longrightarrow> holds select_inv (run_piper_select a rs s)"
proof (induction rs arbitrary: s)
  case Nil
  then show ?case by simp
next
  case (Cons r rs)
  show ?case
  proof (cases "map_of (pipers s) a")
    case None
    then show ?thesis using Cons.prems by simp
  next
    case (Some p)
    show ?thesis
    proof (cases r)
      case (ReadBytes bytes)
      show ?thesis
      proof (cases "bytes = []")
        case True
        have "map_of (pipers (s\<lparr>history := history s @ [Eof (in_fd p)]\<rparr>)) a = Some p"
          using Some by simp
        from piper_fds_remove_piper[OF this]
        have "select_inv (remove_piper a (s\<lparr>history := history s @ [Eof (in_fd p)]\<rparr>))"
          using Cons.prems by (auto simp: select_inv_def)
        then show ?thesis using Some ReadBytes True by simp
      next
        case False
        have "select_inv (write_bytes a p bytes s)"
          using Cons.prems Some by (simp add: select_inv_def)
        from Cons.IH[OF this] show ?thesis using Some ReadBytes False by simp
      qed
    next
      case (ReadFail e)
      then show ?thesis using Some Cons.prems by simp
    qed
  qed
qed

lemma run_pipers_select_preserves:
  assumes one: "\<And>a rs s. P s \<Longrightarrow> holds P (run_piper_select a rs s)"
  shows "P s \<Longrightarrow> holds P (run_pipers_select as ready rd s)"
proof (induction as arbitrary: s)
  case Nil
  then show ?case by simp
next
  case (Cons a as)
  show ?case
  proof (cases "map_of (pipers s) a")
    case None
    then show ?thesis using Cons.prems by simp
  next
    case (Some p)
    show ?thesis
    proof (cases "in_fd p \<in> set ready")
      case False
      then show ?thesis using Some Cons.IH[OF Cons.prems] by simp
    next
      case True
      have h: "holds P (run_piper_select a (reads_on rd (in_fd p)) s)"
        by (rule one[OF Cons.prems])
      show ?thesis
      proof (cases "run_piper_select a (reads_on rd (in_fd p)) s")
        case (Ok s1)
        then show ?thesis using Some True h Cons.IH[of s1] by simp
      next
        case (Die h)
        then show ?thesis using Some True by simp
      next
        case (Wait s1)
        then show ?thesis using Some True h by simp
      qed
    qed
  qed
qed

lemma wait_for_data_select_inv:
  "select_inv s \<Longrightarrow> holds select_inv (wait_for_data sel rd s)"
  by (cases sel)
     (simp_all add: wait_for_data_def run_pipers_select_preserves run_piper_select_select_inv)

lemma collect_exits_select_inv:
  "select_inv s \<Longrightarrow> holds select_inv (collect_exits ws s)"
proof (induction ws arbitrary: s)
  case Nil
  then show ?case by simp
next
  case (Cons w ws)
  show ?case
  proof (cases "num_jobs s \<noteq> 0")
    case False
    then show ?thesis using Cons.prems by simp
  next
    case True
    show ?thesis
    proof (cases w)
      case WaitFails
      then show ?thesis using True by simp
    next
      case WaitNone
      then show ?thesis using True Cons.prems by simp
    next
      case (WaitChild pid c)
      have "select_inv (s\<lparr>num_jobs := num_jobs s - 1,
              status := (if c \<noteq> 0 then 1 else status s),
              history := history s @ [Reaped c (num_jobs s - 1)]\<rparr>)"
        using Cons.prems True by (auto simp: select_inv_def split: if_splits)
      from Cons.IH[OF this] show ?thesis using True WaitChild by simp
    qed
  qed
qed

lemma loop_select_select_inv:
  "select_inv s \<Longrightarrow> holds select_inv (loop_select opts envs s)"
  by (intro loop_select_preserves turn_of_select_preserves start_jobs_select_select_inv
      wait_for_data_select_inv collect_exits_select_inv)

lemma initial_invs:
  "0 \<le> max_jobs opts \<Longrightarrow> jobs_inv opts initial_state" "select_inv initial_state"
  by (simp_all add: jobs_inv_def select_inv_def initial_state_def piper_fds_def)

subsection \<open>The job counter in the kqueue revision\<close>

lemma start_piper_kqueue_fields:
  "start_piper_kqueue fd strm pre env s = Inr s' \<Longrightarrow>
     directory s' = directory s \<and> num_jobs s' = num_jobs s \<and> status s' = status s \<and>
     history s' = history s \<and> open_pipes s' = open_pipes s \<and>
     children s' = children s \<and> kq_procs s' = kq_procs s \<and>
     (\<exists>a. env = PiperAtK a \<and>
        pipers s' = (a, \<lparr>in_fd = fd, out_file = strm, prefix = pre, newline = True\<rparr>) # pipers s
        \<and> allocated s' = a # allocated s)"
  by (auto simp: start_piper_kqueue_def split: piper_env_kqueue.splits)

lemma start_job_kqueue_fields:
  "start_job_kqueue cmd dir env s = Inr s' \<Longrightarrow>
     directory s' = directory s \<and> num_jobs s' = num_jobs s \<and> status s' = status s \<and>
     history s' = history s \<and>
     (\<exists>pid r_out r_err a_out a_err.
        env = ForkedK pid r_out r_err (PiperAtK a_out) (PiperAtK a_err) \<and>
        children s' =
          children s @ [\<lparr>child_pid = pid, child_dir = dir, child_argv = cmd\<rparr>] \<and>
        open_pipes s' = r_err # r_out # open_pipes s \<and>
        kq_procs s' = pid # kq_procs s \<and>
        pipers s' =
          (a_err, \<lparr>in_fd = r_err, out_file = Stderr, prefix = dir, newline = True\<rparr>) #
          (a_out, \<lparr>in_fd = r_out, out_file = Stdout, prefix = dir, newline = True\<rparr>) #
          pipers s \<and>
        allocated s' = a_err # a_out # allocated s)"
  by (auto simp: start_job_kqueue_def split: job_env_kqueue.splits sum.splits
           dest!: start_piper_kqueue_fields)

lemma start_jobs_kqueue_jobs_inv:
  "jobs_inv opts s \<Longrightarrow> holds (jobs_inv opts) (start_jobs_kqueue opts es s)"
proof (induction es arbitrary: s)
  case Nil
  then show ?case by simp
next
  case (Cons e es)
  show ?case
  proof (cases "num_jobs s < max_jobs opts \<and> directory s < length (directories opts)")
    case False
    then show ?thesis using Cons.prems by auto
  next
    case True
    show ?thesis
    proof (cases "start_job_kqueue (command opts) (directories opts ! directory s) e s")
      case (Inl h)
      then show ?thesis using True by simp
    next
      case (Inr s')
      note f = start_job_kqueue_fields[OF Inr]
      have "jobs_inv opts (s'\<lparr>num_jobs := num_jobs s' + 1, directory := directory s' + 1,
              history := history s' @
                [Started (directories opts ! directory s') (num_jobs s' + 1)]\<rparr>)"
        using Cons.prems True f by (auto simp: jobs_inv_def take_Suc_nth)
      from Cons.IH[OF this] show ?thesis using True Inr by simp
    qed
  qed
qed

lemma run_piper_kqueue_frame: "holds (frame s) (run_piper_kqueue a n ok r s)"
  by (auto simp: run_piper_kqueue_def frame_def split: option.splits read_result.splits)

lemma retire_piper_kqueue_frame: "holds (frame s) (retire_piper_kqueue a ok s)"
  by (auto simp: retire_piper_kqueue_def frame_def split: option.splits)

lemma handle_event_kqueue_jobs_inv:
  assumes "jobs_inv opts s"
  shows "holds (jobs_inv opts) (handle_event_kqueue env s)"
proof (cases "event_k env")
  case KeventFails
  then show ?thesis by (simp add: handle_event_kqueue_def)
next
  case (ProcExit pid c)
  then show ?thesis using assms by (simp add: handle_event_kqueue_def jobs_inv_def)
next
  case (Readable a n eof)
  have h: "holds (frame s) (run_piper_kqueue a n (malloc_k env) (read_k env) s)"
    by (rule run_piper_kqueue_frame)
  show ?thesis
  proof (cases "run_piper_kqueue a n (malloc_k env) (read_k env) s")
    case (Ok s1)
    then have i1: "jobs_inv opts s1" using h assms by (simp add: frame_jobs_inv)
    have "holds (jobs_inv opts) (retire_piper_kqueue a (delete_k env) s1)"
      by (rule holds_mono[OF retire_piper_kqueue_frame[of s1 a "delete_k env"]])
         (simp add: frame_jobs_inv i1)
    then show ?thesis using Readable Ok i1 by (simp add: handle_event_kqueue_def)
  next
    case (Die h)
    then show ?thesis using Readable by (simp add: handle_event_kqueue_def)
  next
    case (Wait s1)
    then show ?thesis using Readable h assms
      by (simp add: handle_event_kqueue_def frame_jobs_inv)
  qed
next
  case OtherFilter
  then show ?thesis using assms by (simp add: handle_event_kqueue_def)
qed

lemma turn_of_kqueue_preserves:
  assumes fill: "\<And>es s. P s \<Longrightarrow> holds P (start_jobs_kqueue opts es s)"
    and event: "\<And>env s. P s \<Longrightarrow> holds P (handle_event_kqueue env s)"
    and "P s"
  shows "holds P (turn_of_kqueue opts env s)"
proof (cases "start_jobs_kqueue opts (jobs_k env) s")
  case (Ok s1)
  then have "P s1" using fill[OF \<open>P s\<close>, of "jobs_k env"] by simp
  then show ?thesis using Ok event by (simp add: turn_of_kqueue_def)
next
  case (Die h)
  then show ?thesis by (simp add: turn_of_kqueue_def)
next
  case (Wait s1)
  then show ?thesis using fill[OF \<open>P s\<close>, of "jobs_k env"] by (simp add: turn_of_kqueue_def)
qed

lemma loop_kqueue_preserves:
  assumes turn: "\<And>env s. P s \<Longrightarrow> holds P (turn_of_kqueue opts env s)"
  shows "P s \<Longrightarrow> holds P (loop_kqueue opts envs s)"
proof (induction envs arbitrary: s)
  case Nil
  then show ?case by simp
next
  case (Cons env envs)
  show ?case
  proof (cases "loop_condition_kqueue opts s")
    case False
    then show ?thesis using Cons.prems by simp
  next
    case True
    have t: "holds P (turn_of_kqueue opts env s)"
      by (rule turn[OF Cons.prems])
    show ?thesis
    proof (cases "turn_of_kqueue opts env s")
      case (Ok s')
      then show ?thesis using True t Cons.IH[of s'] by simp
    next
      case (Die h)
      then show ?thesis using True by simp
    next
      case (Wait s')
      then show ?thesis using True t by simp
    qed
  qed
qed

lemma loop_kqueue_jobs_inv:
  "jobs_inv opts s \<Longrightarrow> holds (jobs_inv opts) (loop_kqueue opts envs s)"
  by (intro loop_kqueue_preserves turn_of_kqueue_preserves start_jobs_kqueue_jobs_inv
      handle_event_kqueue_jobs_inv)

subsection \<open>Every directory is started when the children exit\<close>

lemma job_started_select_Inr:
  "job_started_select e \<Longrightarrow> \<exists>s'. start_job_select cmd dir e s = Inr s'"
  by (auto simp: job_started_select_def start_job_select_def start_piper_select_def
           split: job_env_select.splits piper_env_select.splits)

lemma job_started_kqueue_Inr:
  "job_started_kqueue e \<Longrightarrow> \<exists>s'. start_job_kqueue cmd dir e s = Inr s'"
  by (auto simp: job_started_kqueue_def start_job_kqueue_def start_piper_kqueue_def
           split: job_env_kqueue.splits piper_env_kqueue.splits)

lemma start_jobs_select_progress:
  assumes "list_all job_started_select es"
    and "length (directories opts) - directory s \<le> length es"
  shows "\<exists>s'. start_jobs_select opts es s = Ok s' \<and>
           (num_jobs s < max_jobs opts \<and> directory s < length (directories opts)
              \<longrightarrow> directory s < directory s') \<and>
           directory s \<le> directory s' \<and> num_jobs s \<le> num_jobs s'"
  using assms
proof (induction es arbitrary: s)
  case Nil
  then show ?case by simp
next
  case (Cons e es)
  show ?case
  proof (cases "num_jobs s < max_jobs opts \<and> directory s < length (directories opts)")
    case False
    then show ?thesis by auto
  next
    case True
    obtain s1 where s1: "start_job_select (command opts) (directories opts ! directory s) e s = Inr s1"
      using job_started_select_Inr Cons.prems(1) by fastforce
    note f = start_job_select_fields[OF s1]
    let ?s2 = "s1\<lparr>num_jobs := num_jobs s1 + 1, directory := directory s1 + 1,
              history := history s1 @
                [Started (directories opts ! directory s1) (num_jobs s1 + 1)]\<rparr>"
    have "length (directories opts) - directory ?s2 \<le> length es"
      using Cons.prems(2) f by simp
    from Cons.IH[OF _ this] Cons.prems(1)
    obtain s' where "start_jobs_select opts es ?s2 = Ok s'"
      "directory ?s2 \<le> directory s'" "num_jobs ?s2 \<le> num_jobs s'"
      by auto
    then show ?thesis using True s1 f by auto
  qed
qed

lemma start_jobs_kqueue_progress:
  assumes "list_all job_started_kqueue es"
    and "length (directories opts) - directory s \<le> length es"
  shows "\<exists>s'. start_jobs_kqueue opts es s = Ok s' \<and>
           (num_jobs s < max_jobs opts \<and> directory s < length (directories opts)
              \<longrightarrow> directory s < directory s') \<and>
           directory s \<le> directory s' \<and> num_jobs s \<le> num_jobs s'"
  using assms
proof (induction es arbitrary: s)
  case Nil
  then show ?case by simp
next
  case (Cons e es)
  show ?case
  proof (cases "num_jobs s < max_jobs opts \<and> directory s < length (directories opts)")
    case False
    then show ?thesis by auto
  next
    case True
    obtain s1 where s1: "start_job_kqueue (command opts) (directories opts ! directory s) e s = Inr s1"
      using job_started_kqueue_Inr Cons.prems(1) by fastforce
    note f = start_job_kqueue_fields[OF s1]
    let ?s2 = "s1\<lparr>num_jobs := num_jobs s1 + 1, directory := directory s1 + 1,
              history := history s1 @
                [Started (directories opts ! directory s1) (num_jobs s1 + 1)]\<rparr>"
    have "length (directories opts) - directory ?s2 \<le> length es"
      using Cons.prems(2) f by simp
    from Cons.IH[OF _ this] Cons.prems(1)
    obtain s' where "start_jobs_kqueue opts es ?s2 = Ok s'"
      "directory ?s2 \<le> directory s'" "num_jobs ?s2 \<le> num_jobs s'"
      by auto
    then show ?thesis using True s1 f by auto
  qed
qed

lemma collect_exits_all:
  assumes "list_all child_exits ws" and "num_jobs s \<le> int (length ws)" and "0 \<le> num_jobs s"
  shows "\<exists>s'. collect_exits ws s = Ok s' \<and> num_jobs s' = 0 \<and> directory s' = directory s"
  using assms
proof (induction ws arbitrary: s)
  case Nil
  then show ?case by simp
next
  case (Cons w ws)
  show ?case
  proof (cases "num_jobs s \<noteq> 0")
    case False
    then show ?thesis by simp
  next
    case True
    obtain pid c where w: "w = WaitChild pid c"
      using Cons.prems(1) by (cases w) (auto simp: child_exits_def)
    let ?s1 = "s\<lparr>num_jobs := num_jobs s - 1, status := (if c \<noteq> 0 then 1 else status s),
                  history := history s @ [Reaped c (num_jobs s - 1)]\<rparr>"
    have "\<exists>s'. collect_exits ws ?s1 = Ok s' \<and> num_jobs s' = 0 \<and> directory s' = directory ?s1"
      using Cons.prems True by (intro Cons.IH) auto
    then show ?thesis using True w by simp
  qed
qed


lemma turn_of_select_cooperative:
  assumes coop: "cooperative_select opts env"
    and inv: "jobs_inv opts s" and zero: "num_jobs s = 0" and limit: "1 \<le> max_jobs opts"
  shows "\<exists>s'. turn_of_select opts env s = Ok s' \<and> jobs_inv opts s' \<and> num_jobs s' = 0 \<and>
           (directory s' = length (directories opts) \<or> directory s < directory s')"
proof -
  have "length (directories opts) - directory s \<le> length (jobs env)"
    using coop by (auto simp: cooperative_select_def)
  with coop obtain s1 where s1: "start_jobs_select opts (jobs env) s = Ok s1"
    and p: "num_jobs s < max_jobs opts \<and> directory s < length (directories opts)
              \<longrightarrow> directory s < directory s1"
    and m: "directory s \<le> directory s1" "num_jobs s \<le> num_jobs s1"
    using start_jobs_select_progress[of "jobs env" opts s]
    by (auto simp: cooperative_select_def)
  have i1: "jobs_inv opts s1"
    using start_jobs_select_jobs_inv[OF inv, of "jobs env"] s1 by simp
  have w: "wait_for_data (selected env) (reads env) s1 = Ok s1"
    using coop by (simp add: cooperative_select_def wait_for_data_def)
  have "num_jobs s1 \<le> int (length (waits env))" "0 \<le> num_jobs s1"
    using i1 coop m zero by (simp_all add: jobs_inv_def cooperative_select_def)
  with coop obtain s2 where s2: "collect_exits (waits env) s1 = Ok s2"
    "num_jobs s2 = 0" "directory s2 = directory s1"
    using collect_exits_all[of "waits env" s1] by (auto simp: cooperative_select_def)
  have i2: "jobs_inv opts s2"
    using collect_exits_jobs_inv[OF i1, of "waits env"] s2(1) by simp
  have "directory s2 = length (directories opts) \<or> directory s < directory s2"
    using p zero limit i2 s2(3) m by (auto simp: jobs_inv_def)
  then show ?thesis
    using s1 w s2 i2 by (simp add: turn_of_select_def)
qed

lemma loop_select_cooperative:
  assumes limit: "1 \<le> max_jobs opts"
  shows "list_all (cooperative_select opts) envs \<Longrightarrow> jobs_inv opts s \<Longrightarrow> num_jobs s = 0 \<Longrightarrow>
         length (directories opts) - directory s \<le> length envs \<Longrightarrow>
         \<exists>s'. reached (loop_select opts envs s) s' \<and> jobs_inv opts s' \<and>
              directory s' = length (directories opts)"
proof (induction envs arbitrary: s)
  case Nil
  then show ?case by (auto simp: reached_def jobs_inv_def)
next
  case (Cons env envs)
  show ?case
  proof (cases "loop_condition_select opts s")
    case False
    then have "directory s = length (directories opts)"
      using Cons.prems(2) by (auto simp: loop_condition_select_def jobs_inv_def)
    then show ?thesis using False Cons.prems(2) by (auto simp: reached_def)
  next
    case True
    obtain s1 where t: "turn_of_select opts env s = Ok s1" "jobs_inv opts s1" "num_jobs s1 = 0"
      "directory s1 = length (directories opts) \<or> directory s < directory s1"
      using turn_of_select_cooperative[OF _ Cons.prems(2,3) limit, of env] Cons.prems(1)
      by auto
    have "length (directories opts) - directory s1 \<le> length envs"
      using t(4) Cons.prems(4) by auto
    from Cons.IH[OF _ t(2,3) this] Cons.prems(1)
    obtain s' where "reached (loop_select opts envs s1) s'" "jobs_inv opts s'"
      "directory s' = length (directories opts)"
      by auto
    then show ?thesis using True t(1) by (auto simp: reached_def)
  qed
qed

lemma turn_of_kqueue_cooperative:
  assumes coop: "cooperative_kqueue opts env"
    and inv: "jobs_inv opts s" and room: "num_jobs s < max_jobs opts"
  shows "\<exists>s'. turn_of_kqueue opts env s = Ok s' \<and> jobs_inv opts s' \<and>
           num_jobs s' < max_jobs opts \<and>
           (directory s' = length (directories opts) \<or> directory s < directory s')"
proof -
  have "length (directories opts) - directory s \<le> length (jobs_k env)"
    using coop by (auto simp: cooperative_kqueue_def)
  with coop obtain s1 where s1: "start_jobs_kqueue opts (jobs_k env) s = Ok s1"
    and p: "num_jobs s < max_jobs opts \<and> directory s < length (directories opts)
              \<longrightarrow> directory s < directory s1"
    and m: "directory s \<le> directory s1"
    using start_jobs_kqueue_progress[of "jobs_k env" opts s]
    by (auto simp: cooperative_kqueue_def)
  have i1: "jobs_inv opts s1"
    using start_jobs_kqueue_jobs_inv[OF inv, of "jobs_k env"] s1 by simp
  obtain pid c where ev: "event_k env = ProcExit pid c"
    using coop by (auto simp: cooperative_kqueue_def split: kevent_env.splits)
  let ?s2 = "s1\<lparr>num_jobs := num_jobs s1 - 1, kq_procs := remove1 pid (kq_procs s1),
                  history := history s1 @ [Reaped c (num_jobs s1 - 1)]\<rparr>"
  have h: "handle_event_kqueue env s1 = Ok ?s2"
    using ev by (simp add: handle_event_kqueue_def)
  have i2: "jobs_inv opts ?s2"
    using handle_event_kqueue_jobs_inv[OF i1, of env] h by simp
  have "num_jobs ?s2 < max_jobs opts" using i1 by (simp add: jobs_inv_def)
  moreover have "directory ?s2 = length (directories opts) \<or> directory s < directory ?s2"
    using p room i1 m by (auto simp: jobs_inv_def)
  ultimately show ?thesis
    using s1 h i2 by (simp add: turn_of_kqueue_def)
qed

lemma loop_kqueue_cooperative:
  "list_all (cooperative_kqueue opts) envs \<Longrightarrow> jobs_inv opts s \<Longrightarrow>
   num_jobs s < max_jobs opts \<Longrightarrow>
   length (directories opts) - directory s \<le> length envs \<Longrightarrow>
   \<exists>s'. reached (loop_kqueue opts envs s) s' \<and> jobs_inv opts s' \<and>
        directory s' = length (directories opts)"
proof (induction envs arbitrary: s)
  case Nil
  then show ?case by (auto simp: reached_def jobs_inv_def)
next
  case (Cons env envs)
  show ?case
  proof (cases "loop_condition_kqueue opts s")
    case False
    then have "directory s = length (directories opts)"
      using Cons.prems(2) by (auto simp: loop_condition_kqueue_def jobs_inv_def)
    then show ?thesis using False Cons.prems(2) by (auto simp: reached_def)
  next
    case True
    obtain s1 where t: "turn_of_kqueue opts env s = Ok s1" "jobs_inv opts s1"
      "num_jobs s1 < max_jobs opts"
      "directory s1 = length (directories opts) \<or> directory s < directory s1"
      using turn_of_kqueue_cooperative[OF _ Cons.prems(2,3), of env] Cons.prems(1)
      by auto
    have "length (directories opts) - directory s1 \<le> length envs"
      using t(4) Cons.prems(4) by auto
    from Cons.IH[OF _ t(2,3) this] Cons.prems(1)
    obtain s' where "reached (loop_kqueue opts envs s1) s'" "jobs_inv opts s'"
      "directory s' = length (directories opts)"
      by auto
    then show ?thesis using True t(1) by (auto simp: reached_def)
  qed
qed

lemma loop_select_Ok_all_started:
  assumes "jobs_inv opts s0" and "loop_select opts envs s0 = Ok s"
  shows "started_dirs (history s) = directories opts \<and>
         map child_dir (children s) = directories opts \<and>
         \<not> loop_condition_select opts s"
proof -
  have c: "\<not> loop_condition_select opts s"
    using assms(2)
  proof (induction envs arbitrary: s0)
    case Nil
    then show ?case by (simp split: if_splits)
  next
    case (Cons env envs)
    then show ?case by (auto split: if_splits outcome.splits)
  qed
  have "jobs_inv opts s"
    using loop_select_jobs_inv[OF assms(1), of envs] assms(2) by simp
  then show ?thesis using c by (auto simp: jobs_inv_def loop_condition_select_def)
qed

lemma loop_kqueue_Ok_all_started:
  assumes "jobs_inv opts s0" and "loop_kqueue opts envs s0 = Ok s"
  shows "started_dirs (history s) = directories opts \<and>
         map child_dir (children s) = directories opts \<and>
         \<not> loop_condition_kqueue opts s"
proof -
  have c: "\<not> loop_condition_kqueue opts s"
    using assms(2)
  proof (induction envs arbitrary: s0)
    case Nil
    then show ?case by (simp split: if_splits)
  next
    case (Cons env envs)
    then show ?case by (auto split: if_splits outcome.splits)
  qed
  have "jobs_inv opts s"
    using loop_kqueue_jobs_inv[OF assms(1), of envs] assms(2) by simp
  then show ?thesis using c by (auto simp: jobs_inv_def loop_condition_kqueue_def)
qed

lemma start_jobs_select_Ok_cond:
  "start_jobs_select opts es s = Ok s' \<Longrightarrow>
   \<not> (num_jobs s' < max_jobs opts \<and> directory s' < length (directories opts))"
  by (induction es arbitrary: s) (auto split: if_splits sum.splits)

lemma start_jobs_kqueue_Ok_cond:
  "start_jobs_kqueue opts es s = Ok s' \<Longrightarrow>
   \<not> (num_jobs s' < max_jobs opts \<and> directory s' < length (directories opts))"
  by (induction es arbitrary: s) (auto split: if_splits sum.splits)

lemma start_jobs_select_fills:
  "jobs_inv opts s \<Longrightarrow> start_jobs_select opts es s = Ok s' \<Longrightarrow>
   num_jobs s' = max_jobs opts \<or> directory s' = length (directories opts)"
  using start_jobs_select_jobs_inv[of opts s es] start_jobs_select_Ok_cond[of opts es s s']
  by (auto simp: jobs_inv_def)

lemma start_jobs_kqueue_fills:
  "jobs_inv opts s \<Longrightarrow> start_jobs_kqueue opts es s = Ok s' \<Longrightarrow>
   num_jobs s' = max_jobs opts \<or> directory s' = length (directories opts)"
  using start_jobs_kqueue_jobs_inv[of opts s es] start_jobs_kqueue_Ok_cond[of opts es s s']
  by (auto simp: jobs_inv_def)

text \<open>
  Claim C3. For every limit of at least 1 and every list of directories, in both
  revisions and whatever the environment does:
  \<^item> in every state in which the loop ends or waits, \<^verbatim>\<open>num_jobs\<close> is at most the limit,
    and so is every value it took before (\<open>jobs_counts\<close>); the children that were
    forked are those of the first \<open>directory\<close> directories, in order, one each, and
    each runs the command (\<open>jobs_inv\<close>);
  \<^item> whenever the inner loop that starts jobs is left, the limit is reached or no
    directory is left: a directory never waits while fewer than the limit are running;
  \<^item> when the loop ends, a child was forked for every directory.

  That every directory does get its job is a matter of the loop going on after a child
  has exited. It does when the exit is noticed: over turns in which nothing fails and
  the wait is ended by the exit of a child (\<^verbatim>\<open>select\<close> interrupted by \<^verbatim>\<open>SIGCHLD\<close> and
  \<^verbatim>\<open>waitpid\<close> finding the children; \<^verbatim>\<open>kevent\<close> returning the exit event), one turn for
  each directory is enough for every directory to have its job started. The exit event
  of the kqueue revision stays in the queue until \<^verbatim>\<open>kevent\<close> returns it. The signal of the
  select revision does not wait for \<^verbatim>\<open>select\<close>; that case follows the theorem.
\<close>

theorem C3_concurrency_limit:
  assumes "1 \<le> max_jobs opts"
  shows
    "holds (jobs_inv opts) (loop_select opts envs initial_state) \<and>
     holds (jobs_inv opts) (loop_kqueue opts kenvs initial_state) \<and>
     (jobs_inv opts s0 \<and> start_jobs_select opts es s0 = Ok s1 \<longrightarrow>
        num_jobs s1 = max_jobs opts \<or> directory s1 = length (directories opts)) \<and>
     (jobs_inv opts s0 \<and> start_jobs_kqueue opts kes s0 = Ok s1 \<longrightarrow>
        num_jobs s1 = max_jobs opts \<or> directory s1 = length (directories opts)) \<and>
     (loop_select opts envs initial_state = Ok s \<longrightarrow>
        started_dirs (history s) = directories opts \<and>
        map child_dir (children s) = directories opts) \<and>
     (loop_kqueue opts kenvs initial_state = Ok s \<longrightarrow>
        started_dirs (history s) = directories opts \<and>
        map child_dir (children s) = directories opts) \<and>
     (list_all (cooperative_select opts) envs \<and> length (directories opts) \<le> length envs \<longrightarrow>
        (\<exists>s'. reached (loop_select opts envs initial_state) s' \<and>
              started_dirs (history s') = directories opts \<and>
              map child_dir (children s') = directories opts)) \<and>
     (list_all (cooperative_kqueue opts) kenvs \<and> length (directories opts) \<le> length kenvs \<longrightarrow>
        (\<exists>s'. reached (loop_kqueue opts kenvs initial_state) s' \<and>
              started_dirs (history s') = directories opts \<and>
              map child_dir (children s') = directories opts))"
proof -
  have i0: "jobs_inv opts initial_state"
    using assms by (simp add: initial_invs)
  have z: "num_jobs initial_state = 0" "directory initial_state = 0"
    by (simp_all add: initial_state_def)
  have a: "holds (jobs_inv opts) (loop_select opts envs initial_state)"
    by (rule loop_select_jobs_inv[OF i0])
  have b: "holds (jobs_inv opts) (loop_kqueue opts kenvs initial_state)"
    by (rule loop_kqueue_jobs_inv[OF i0])
  have fa: "jobs_inv opts s0 \<and> start_jobs_select opts es s0 = Ok s1 \<longrightarrow>
        num_jobs s1 = max_jobs opts \<or> directory s1 = length (directories opts)"
    using start_jobs_select_fills[of opts s0 es s1] by blast
  have fb: "jobs_inv opts s0 \<and> start_jobs_kqueue opts kes s0 = Ok s1 \<longrightarrow>
        num_jobs s1 = max_jobs opts \<or> directory s1 = length (directories opts)"
    using start_jobs_kqueue_fills[of opts s0 kes s1] by blast
  have c: "loop_select opts envs initial_state = Ok s \<longrightarrow>
        started_dirs (history s) = directories opts \<and>
        map child_dir (children s) = directories opts"
    using loop_select_Ok_all_started[OF i0] by blast
  have d: "loop_kqueue opts kenvs initial_state = Ok s \<longrightarrow>
        started_dirs (history s) = directories opts \<and>
        map child_dir (children s) = directories opts"
    using loop_kqueue_Ok_all_started[OF i0] by blast
  have e: "list_all (cooperative_select opts) envs \<and> length (directories opts) \<le> length envs \<longrightarrow>
        (\<exists>s'. reached (loop_select opts envs initial_state) s' \<and>
              started_dirs (history s') = directories opts \<and>
              map child_dir (children s') = directories opts)"
  proof
    assume h: "list_all (cooperative_select opts) envs \<and> length (directories opts) \<le> length envs"
    then obtain s' where "reached (loop_select opts envs initial_state) s'" "jobs_inv opts s'"
      "directory s' = length (directories opts)"
      using loop_select_cooperative[OF assms _ i0 z(1), of envs] z(2) by auto
    then show "\<exists>s'. reached (loop_select opts envs initial_state) s' \<and>
              started_dirs (history s') = directories opts \<and>
              map child_dir (children s') = directories opts"
      by (auto simp: jobs_inv_def)
  qed
  have f: "list_all (cooperative_kqueue opts) kenvs \<and> length (directories opts) \<le> length kenvs \<longrightarrow>
        (\<exists>s'. reached (loop_kqueue opts kenvs initial_state) s' \<and>
              started_dirs (history s') = directories opts \<and>
              map child_dir (children s') = directories opts)"
  proof
    assume h: "list_all (cooperative_kqueue opts) kenvs \<and> length (directories opts) \<le> length kenvs"
    have "num_jobs initial_state < max_jobs opts" using assms z by simp
    then obtain s' where "reached (loop_kqueue opts kenvs initial_state) s'" "jobs_inv opts s'"
      "directory s' = length (directories opts)"
      using loop_kqueue_cooperative[OF _ i0, of kenvs] h z(2) by auto
    then show "\<exists>s'. reached (loop_kqueue opts kenvs initial_state) s' \<and>
              started_dirs (history s') = directories opts \<and>
              map child_dir (children s') = directories opts"
      by (auto simp: jobs_inv_def)
  qed
  show ?thesis using a b fa fb c d e f by blast
qed

theorem C3_concurrency_limit_witness:
  "(\<exists>s'. reached
      (loop_select \<lparr>max_jobs = 2, directories = [''a'', ''b'', ''c''], command = [''ls'']\<rparr>
        [\<lparr>jobs = [Forked 100 3 4 (PiperAt 1) (PiperAt 2), Forked 101 5 6 (PiperAt 3) (PiperAt 4),
                  Forked 102 7 8 (PiperAt 5) (PiperAt 6)],
          selected = SelectFails EINTR, reads = [],
          waits = [WaitChild 100 0, WaitChild 101 0]\<rparr>,
         \<lparr>jobs = [Forked 102 7 8 (PiperAt 5) (PiperAt 6), Forked 103 9 10 (PiperAt 7) (PiperAt 8),
                  Forked 104 11 12 (PiperAt 9) (PiperAt 10)],
          selected = SelectFails EINTR, reads = [],
          waits = [WaitChild 102 0, WaitChild 103 0]\<rparr>,
         \<lparr>jobs = [Forked 103 9 10 (PiperAt 7) (PiperAt 8), Forked 104 11 12 (PiperAt 9) (PiperAt 10),
                  Forked 105 13 14 (PiperAt 11) (PiperAt 12)],
          selected = SelectFails EINTR, reads = [],
          waits = [WaitChild 103 0, WaitChild 104 0]\<rparr>]
        initial_state) s' \<and>
      started_dirs (history s') = [''a'', ''b'', ''c''] \<and>
      map child_dir (children s') = [''a'', ''b'', ''c'']) \<and>
   (\<exists>s'. reached
      (loop_kqueue \<lparr>max_jobs = 2, directories = [''a'', ''b'', ''c''], command = [''ls'']\<rparr>
        [\<lparr>jobs_k = [ForkedK 100 3 4 (PiperAtK 1) (PiperAtK 2),
                    ForkedK 101 5 6 (PiperAtK 3) (PiperAtK 4),
                    ForkedK 102 7 8 (PiperAtK 5) (PiperAtK 6)],
          event_k = ProcExit 100 0, malloc_k = True, read_k = ReadBytes [], delete_k = True\<rparr>,
         \<lparr>jobs_k = [ForkedK 102 7 8 (PiperAtK 5) (PiperAtK 6),
                    ForkedK 103 9 10 (PiperAtK 7) (PiperAtK 8),
                    ForkedK 104 11 12 (PiperAtK 9) (PiperAtK 10)],
          event_k = ProcExit 101 0, malloc_k = True, read_k = ReadBytes [], delete_k = True\<rparr>,
         \<lparr>jobs_k = [ForkedK 103 9 10 (PiperAtK 7) (PiperAtK 8),
                    ForkedK 104 11 12 (PiperAtK 9) (PiperAtK 10),
                    ForkedK 105 13 14 (PiperAtK 11) (PiperAtK 12)],
          event_k = ProcExit 102 0, malloc_k = True, read_k = ReadBytes [], delete_k = True\<rparr>]
        initial_state) s' \<and>
      started_dirs (history s') = [''a'', ''b'', ''c''] \<and>
      map child_dir (children s') = [''a'', ''b'', ''c''])"
  using C3_concurrency_limit[of
      "\<lparr>max_jobs = 2, directories = [''a'', ''b'', ''c''], command = [''ls'']\<rparr>"
        "[\<lparr>jobs = [Forked 100 3 4 (PiperAt 1) (PiperAt 2), Forked 101 5 6 (PiperAt 3) (PiperAt 4),
                  Forked 102 7 8 (PiperAt 5) (PiperAt 6)],
          selected = SelectFails EINTR, reads = [],
          waits = [WaitChild 100 0, WaitChild 101 0]\<rparr>,
         \<lparr>jobs = [Forked 102 7 8 (PiperAt 5) (PiperAt 6), Forked 103 9 10 (PiperAt 7) (PiperAt 8),
                  Forked 104 11 12 (PiperAt 9) (PiperAt 10)],
          selected = SelectFails EINTR, reads = [],
          waits = [WaitChild 102 0, WaitChild 103 0]\<rparr>,
         \<lparr>jobs = [Forked 103 9 10 (PiperAt 7) (PiperAt 8), Forked 104 11 12 (PiperAt 9) (PiperAt 10),
                  Forked 105 13 14 (PiperAt 11) (PiperAt 12)],
          selected = SelectFails EINTR, reads = [],
          waits = [WaitChild 103 0, WaitChild 104 0]\<rparr>]"
        "[\<lparr>jobs_k = [ForkedK 100 3 4 (PiperAtK 1) (PiperAtK 2),
                    ForkedK 101 5 6 (PiperAtK 3) (PiperAtK 4),
                    ForkedK 102 7 8 (PiperAtK 5) (PiperAtK 6)],
          event_k = ProcExit 100 0, malloc_k = True, read_k = ReadBytes [], delete_k = True\<rparr>,
         \<lparr>jobs_k = [ForkedK 102 7 8 (PiperAtK 5) (PiperAtK 6),
                    ForkedK 103 9 10 (PiperAtK 7) (PiperAtK 8),
                    ForkedK 104 11 12 (PiperAtK 9) (PiperAtK 10)],
          event_k = ProcExit 101 0, malloc_k = True, read_k = ReadBytes [], delete_k = True\<rparr>,
         \<lparr>jobs_k = [ForkedK 103 9 10 (PiperAtK 7) (PiperAtK 8),
                    ForkedK 104 11 12 (PiperAtK 9) (PiperAtK 10),
                    ForkedK 105 13 14 (PiperAtK 11) (PiperAtK 12)],
          event_k = ProcExit 102 0, malloc_k = True, read_k = ReadBytes [], delete_k = True\<rparr>]"]
  by (simp add: cooperative_select_def cooperative_kqueue_def job_started_select_def
      job_started_kqueue_def child_exits_def)

text \<open>
  The select revision with the limit 1 and the directories \<^verbatim>\<open>d\<close> and \<^verbatim>\<open>e\<close>. The job of
  \<^verbatim>\<open>d\<close> is started. \<^verbatim>\<open>select\<close> reports both pipes; the reads deliver the child's output
  and then the end of both streams, so that both pipers are removed. The child has
  closed its pipes and is not yet a zombie: \<^verbatim>\<open>waitpid\<close> with \<^verbatim>\<open>WNOHANG\<close> returns 0. The
  turn ends in the state \<open>S\<close> below. Now the child becomes a zombie and \<^verbatim>\<open>SIGCHLD\<close> is
  delivered, before the process is in \<^verbatim>\<open>select\<close> again: \<^verbatim>\<open>sig_chld\<close> runs and changes
  nothing. In \<open>S\<close> the loop goes on (\<^verbatim>\<open>num_jobs\<close> is 1), no job can be started (the limit
  is reached), and \<^verbatim>\<open>select\<close> is called with no descriptor and no timeout. No descriptor
  can become ready and no child is left whose exit would send a signal: the call does
  not return, and the job of \<^verbatim>\<open>e\<close> is never started.
\<close>

theorem C3_select_lost_wakeup_counterexample:
  "main_select Gnu [''within'', ''-j'', ''1'', ''d'', ''e'', ''-'', ''ls'']
     [\<lparr>jobs = [Forked 100 3 4 (PiperAt 1) (PiperAt 2)], selected = SelectReady [3, 4],
       reads = [(3, [ReadBytes (''f'' @ [CHR 0x0A]), ReadBytes []]), (4, [ReadBytes []])],
       waits = [WaitNone]\<rparr>] =
     Wait \<lparr>directory = 1, num_jobs = 1, status = 0, pipers = [], kq_procs = [],
       allocated = [], open_pipes = [4, 3], stdout_text = ''d: f'' @ [CHR 0x0A],
       stderr_text = [], history = [Started ''d'' 1, Eof 4, Eof 3],
       children = [\<lparr>child_pid = 100, child_dir = ''d'', child_argv = [''ls'']\<rparr>]\<rparr> \<and>
   parse_options Gnu is_separator_select [''within'', ''-j'', ''1'', ''d'', ''e'', ''-'', ''ls''] =
     Inr \<lparr>max_jobs = 1, directories = [''d'', ''e''], command = [''ls'']\<rparr> \<and>
   sig_chld
     \<lparr>directory = 1, num_jobs = 1, status = 0, pipers = [], kq_procs = [],
       allocated = [], open_pipes = [4, 3], stdout_text = ''d: f'' @ [CHR 0x0A],
       stderr_text = [], history = [Started ''d'' 1, Eof 4, Eof 3],
       children = [\<lparr>child_pid = 100, child_dir = ''d'', child_argv = [''ls'']\<rparr>]\<rparr> =
     \<lparr>directory = 1, num_jobs = 1, status = 0, pipers = [], kq_procs = [],
       allocated = [], open_pipes = [4, 3], stdout_text = ''d: f'' @ [CHR 0x0A],
       stderr_text = [], history = [Started ''d'' 1, Eof 4, Eof 3],
       children = [\<lparr>child_pid = 100, child_dir = ''d'', child_argv = [''ls'']\<rparr>]\<rparr> \<and>
   loop_condition_select \<lparr>max_jobs = 1, directories = [''d'', ''e''], command = [''ls'']\<rparr>
     \<lparr>directory = 1, num_jobs = 1, status = 0, pipers = [], kq_procs = [],
       allocated = [], open_pipes = [4, 3], stdout_text = ''d: f'' @ [CHR 0x0A],
       stderr_text = [], history = [Started ''d'' 1, Eof 4, Eof 3],
       children = [\<lparr>child_pid = 100, child_dir = ''d'', child_argv = [''ls'']\<rparr>]\<rparr> \<and>
   start_jobs_select \<lparr>max_jobs = 1, directories = [''d'', ''e''], command = [''ls'']\<rparr>
     [Forked 101 5 6 (PiperAt 3) (PiperAt 4)]
     \<lparr>directory = 1, num_jobs = 1, status = 0, pipers = [], kq_procs = [],
       allocated = [], open_pipes = [4, 3], stdout_text = ''d: f'' @ [CHR 0x0A],
       stderr_text = [], history = [Started ''d'' 1, Eof 4, Eof 3],
       children = [\<lparr>child_pid = 100, child_dir = ''d'', child_argv = [''ls'']\<rparr>]\<rparr> =
     Ok \<lparr>directory = 1, num_jobs = 1, status = 0, pipers = [], kq_procs = [],
       allocated = [], open_pipes = [4, 3], stdout_text = ''d: f'' @ [CHR 0x0A],
       stderr_text = [], history = [Started ''d'' 1, Eof 4, Eof 3],
       children = [\<lparr>child_pid = 100, child_dir = ''d'', child_argv = [''ls'']\<rparr>]\<rparr> \<and>
   piper_fds
     \<lparr>directory = 1, num_jobs = 1, status = 0, pipers = [], kq_procs = [],
       allocated = [], open_pipes = [4, 3], stdout_text = ''d: f'' @ [CHR 0x0A],
       stderr_text = [], history = [Started ''d'' 1, Eof 4, Eof 3],
       children = [\<lparr>child_pid = 100, child_dir = ''d'', child_argv = [''ls'']\<rparr>]\<rparr> = [] \<and>
   ''e'' \<notin> set (started_dirs [Started ''d'' 1, Eof 4, Eof 3])"
  by code_simp

subsection \<open>Fatal errors end the process with exit code 1\<close>

lemma fatal1_simps [simp]:
  "fatal1 (Ok s) = True" "fatal1 (Wait s) = True" "fatal1 (Die h) = (exit_code h = 1)"
  by (simp_all add: fatal1_def)

lemma start_job_select_Inl: "start_job_select cmd dir e s = Inl h \<Longrightarrow> exit_code h = 1"
  by (auto simp: start_job_select_def start_piper_select_def
           split: job_env_select.splits piper_env_select.splits sum.splits)

lemma start_job_kqueue_Inl: "start_job_kqueue cmd dir e s = Inl h \<Longrightarrow> exit_code h = 1"
  by (auto simp: start_job_kqueue_def start_piper_kqueue_def
           split: job_env_kqueue.splits piper_env_kqueue.splits sum.splits)

lemma start_jobs_select_fatal1: "fatal1 (start_jobs_select opts es s)"
proof (induction es arbitrary: s)
  case Nil
  then show ?case by simp
next
  case (Cons e es)
  then show ?case by (auto split: sum.splits dest: start_job_select_Inl)
qed

lemma start_jobs_kqueue_fatal1: "fatal1 (start_jobs_kqueue opts es s)"
proof (induction es arbitrary: s)
  case Nil
  then show ?case by simp
next
  case (Cons e es)
  then show ?case by (auto split: sum.splits dest: start_job_kqueue_Inl)
qed

lemma run_piper_select_fatal1: "fatal1 (run_piper_select a rs s)"
  by (induction rs arbitrary: s) (auto split: option.splits read_result.splits)

lemma run_pipers_select_fatal1: "fatal1 (run_pipers_select as ready rd s)"
proof (induction as arbitrary: s)
  case Nil
  then show ?case by simp
next
  case (Cons a as)
  show ?case
  proof (cases "map_of (pipers s) a")
    case None
    then show ?thesis by simp
  next
    case (Some p)
    show ?thesis
      using run_piper_select_fatal1[of a "reads_on rd (in_fd p)" s] Cons.IH Some
      by (cases "run_piper_select a (reads_on rd (in_fd p)) s") auto
  qed
qed

lemma wait_for_data_fatal1: "fatal1 (wait_for_data sel rd s)"
  by (cases sel) (simp_all add: wait_for_data_def run_pipers_select_fatal1)

lemma collect_exits_fatal1: "fatal1 (collect_exits ws s)"
  by (induction ws arbitrary: s) (auto split: wait_env.splits)

lemma turn_of_select_fatal1: "fatal1 (turn_of_select opts env s)"
proof (cases "start_jobs_select opts (jobs env) s")
  case (Ok s1)
  show ?thesis
    using wait_for_data_fatal1[of "selected env" "reads env" s1]
      collect_exits_fatal1[of "waits env"] Ok
    by (cases "wait_for_data (selected env) (reads env) s1")
       (simp_all add: turn_of_select_def)
next
  case (Die h)
  then show ?thesis
    using start_jobs_select_fatal1[of opts "jobs env" s] by (simp add: turn_of_select_def)
next
  case (Wait s1)
  then show ?thesis by (simp add: turn_of_select_def)
qed

lemma loop_select_fatal1: "fatal1 (loop_select opts envs s)"
proof (induction envs arbitrary: s)
  case Nil
  then show ?case by simp
next
  case (Cons env envs)
  show ?case
    using turn_of_select_fatal1[of opts env s] Cons.IH
    by (cases "turn_of_select opts env s") auto
qed

lemma main_select_fatal1: "fatal1 (main_select k argv envs)"
  by (auto simp: main_select_def loop_select_fatal1 split: sum.splits dest: parse_options_Inl)

lemma handle_event_kqueue_fatal1: "fatal1 (handle_event_kqueue env s)"
  by (auto simp: handle_event_kqueue_def run_piper_kqueue_def retire_piper_kqueue_def
           split: kevent_env.splits option.splits read_result.splits outcome.splits)

lemma turn_of_kqueue_fatal1: "fatal1 (turn_of_kqueue opts env s)"
  using start_jobs_kqueue_fatal1[of opts "jobs_k env" s] handle_event_kqueue_fatal1[of env]
  by (cases "start_jobs_kqueue opts (jobs_k env) s") (simp_all add: turn_of_kqueue_def)

lemma loop_kqueue_fatal1: "fatal1 (loop_kqueue opts envs s)"
proof (induction envs arbitrary: s)
  case Nil
  then show ?case by simp
next
  case (Cons env envs)
  show ?case
    using turn_of_kqueue_fatal1[of opts env s] Cons.IH
    by (cases "turn_of_kqueue opts env s") auto
qed

lemma main_kqueue_fatal1: "fatal1 (main_kqueue k argv kq envs)"
  by (auto simp: main_kqueue_def loop_kqueue_fatal1 split: sum.splits dest: parse_options_Inl)

subsection \<open>The exit code\<close>

lemma main_select_Ok:
  assumes "main_select k argv envs = Ok s"
  shows "\<exists>opts. parse_options k is_separator_select argv = Inr opts \<and>
           loop_select opts envs initial_state = Ok s \<and> jobs_inv opts s \<and> select_inv s \<and>
           \<not> loop_condition_select opts s \<and> started_dirs (history s) = directories opts"
proof -
  obtain opts where p: "parse_options k is_separator_select argv = Inr opts"
    and l: "loop_select opts envs initial_state = Ok s"
    using assms by (auto simp: main_select_def split: sum.splits)
  have m: "0 \<le> max_jobs opts" using parse_options_Inr[OF p] by simp
  have i0: "jobs_inv opts initial_state" by (rule initial_invs(1)[OF m])
  have "jobs_inv opts s" using loop_select_jobs_inv[OF i0, of envs] l by simp
  moreover have "select_inv s"
    using loop_select_select_inv[OF initial_invs(2), of opts envs] l by simp
  ultimately show ?thesis
    using p l loop_select_Ok_all_started[OF i0 l] by blast
qed

lemma main_select_exit_code:
  assumes "main_select k argv envs = Ok s"
  shows "exit_code_select (main_select k argv envs) =
           Some (if list_all (\<lambda>c. c = 0) (reaped_statuses (history s)) then 0 else 1) \<and>
         length (reaped_statuses (history s)) = length (started_dirs (history s))"
proof -
  obtain opts where o: "jobs_inv opts s" "select_inv s" "\<not> loop_condition_select opts s"
    using main_select_Ok[OF assms] by blast
  have "num_jobs s = 0" using o(3) by (simp add: loop_condition_select_def)
  then have "length (reaped_statuses (history s)) = directory s"
    using o(2) by (simp add: select_inv_def)
  moreover have "length (started_dirs (history s)) = directory s"
    using o(1) by (simp add: jobs_inv_def)
  moreover have "status s = (if list_all (\<lambda>c. c = 0) (reaped_statuses (history s)) then 0 else 1)"
    using o(2) by (simp add: select_inv_def)
  ultimately show ?thesis using assms by (simp add: exit_code_select_def)
qed

lemma main_select_Die:
  "main_select k argv envs = Die h \<Longrightarrow> exit_code_select (main_select k argv envs) = Some 1"
  using main_select_fatal1[of k argv envs] by (simp add: exit_code_select_def)

lemma main_kqueue_Die:
  "main_kqueue k argv kq envs = Die h \<Longrightarrow> exit_code_kqueue (main_kqueue k argv kq envs) = Some 1"
  using main_kqueue_fatal1[of k argv kq envs] by (simp add: exit_code_kqueue_def)

text \<open>
  Claim C1. The exit code of the process is 0 if and only if every child that was started
  exited with status 0, and 1 otherwise; a fatal failure gives 1. In the select revision
  this holds: when \<^verbatim>\<open>main\<close> returns, every job that was started has been collected, and
  the code returned is 0 when all the wait statuses were 0 and 1 when one was not; every
  \<^verbatim>\<open>err\<close> and \<^verbatim>\<open>exit\<close> ends the process with 1. In the kqueue revision fatal failures
  give 1 as well, but whenever the loop ends the exit code is 0: \<^verbatim>\<open>main\<close> keeps no status
  and never reads the one its exit events carry.
\<close>

theorem C1_exit_code:
  "(main_select k argv envs = Ok s \<longrightarrow>
      exit_code_select (main_select k argv envs) =
        Some (if list_all (\<lambda>c. c = 0) (reaped_statuses (history s)) then 0 else 1) \<and>
      length (reaped_statuses (history s)) = length (started_dirs (history s))) \<and>
   (main_select k argv envs = Die h \<longrightarrow> exit_code_select (main_select k argv envs) = Some 1) \<and>
   (main_kqueue k argv kq kenvs = Die h \<longrightarrow>
      exit_code_kqueue (main_kqueue k argv kq kenvs) = Some 1) \<and>
   (main_kqueue k argv kq kenvs = Ok s \<longrightarrow>
      exit_code_kqueue (main_kqueue k argv kq kenvs) = Some 0)"
  using main_select_exit_code[of k argv envs s] main_select_Die[of k argv envs h]
    main_kqueue_Die[of k argv kq kenvs h]
  by (simp add: exit_code_kqueue_def)

theorem C1_exit_code_witness:
  "exit_code_select
     (main_select Gnu [''within'', ''ok'', ''bad'', ''-'', ''sh'']
       [\<lparr>jobs = [Forked 100 3 4 (PiperAt 1) (PiperAt 2)], selected = SelectReady [3, 4],
         reads = [(3, [ReadBytes (''hi'' @ [CHR 0x0A]), ReadBytes []]), (4, [ReadBytes []])],
         waits = [WaitChild 100 0]\<rparr>,
        \<lparr>jobs = [Forked 101 5 6 (PiperAt 3) (PiperAt 4)], selected = SelectReady [5, 6],
         reads = [(5, [ReadBytes []]), (6, [ReadBytes []])],
         waits = [WaitChild 101 256]\<rparr>]) = Some 1 \<and>
   exit_code_select (main_select Gnu [''within'', ''-j'', ''0'', ''d'', ''ls''] []) = Some 1"
proof -
  let ?argv = "[''within'', ''ok'', ''bad'', ''-'', ''sh'']"
  let ?envs = "[\<lparr>jobs = [Forked 100 3 4 (PiperAt 1) (PiperAt 2)], selected = SelectReady [3, 4],
         reads = [(3, [ReadBytes (''hi'' @ [CHR 0x0A]), ReadBytes []]), (4, [ReadBytes []])],
         waits = [WaitChild 100 0]\<rparr>,
        \<lparr>jobs = [Forked 101 5 6 (PiperAt 3) (PiperAt 4)], selected = SelectReady [5, 6],
         reads = [(5, [ReadBytes []]), (6, [ReadBytes []])],
         waits = [WaitChild 101 256]\<rparr>]"
  let ?s = "\<lparr>directory = 2, num_jobs = 0, status = 1, pipers = [], kq_procs = [],
       allocated = [], open_pipes = [6, 5, 4, 3], stdout_text = ''ok: hi'' @ [CHR 0x0A],
       stderr_text = [],
       history =
         [Started ''ok'' 1, Eof 4, Eof 3, Reaped 0 0, Started ''bad'' 1,
          Eof 6, Eof 5, Reaped 256 0],
       children = [\<lparr>child_pid = 100, child_dir = ''ok'', child_argv = [''sh'']\<rparr>,
          \<lparr>child_pid = 101, child_dir = ''bad'', child_argv = [''sh'']\<rparr>]\<rparr>"
  have run: "main_select Gnu ?argv ?envs = Ok ?s"
    by code_simp
  have a: "exit_code_select (main_select Gnu ?argv ?envs) = Some 1"
    using C1_exit_code[of Gnu ?argv ?envs ?s] run by (simp add: reaped_statuses_def)
  have die: "main_select Gnu [''within'', ''-j'', ''0'', ''d'', ''ls''] [] =
      Die (Halt 1 ''invalid -j: 0'')"
    by code_simp
  have b: "exit_code_select (main_select Gnu [''within'', ''-j'', ''0'', ''d'', ''ls''] []) = Some 1"
    using C1_exit_code[of Gnu "[''within'', ''-j'', ''0'', ''d'', ''ls'']" "[]" _
        "Halt 1 ''invalid -j: 0''"] die
    by simp
  show ?thesis using a b by simp
qed

text \<open>
  The kqueue revision with one directory whose child exits with status 1 (wait status
  256): the exit event ends the loop and the process exits with 0.
\<close>

theorem C1_kqueue_exit_code_counterexample:
  "main_kqueue Posix [''within'', ''bad'', ''false''] True
     [\<lparr>jobs_k = [ForkedK 100 3 4 (PiperAtK 1) (PiperAtK 2)], event_k = ProcExit 100 256,
       malloc_k = True, read_k = ReadBytes [], delete_k = True\<rparr>] =
     Ok \<lparr>directory = 1, num_jobs = 0, status = 0,
       pipers =
         [(2, \<lparr>in_fd = 4, out_file = Stderr, prefix = ''bad'', newline = True\<rparr>),
          (1, \<lparr>in_fd = 3, out_file = Stdout, prefix = ''bad'', newline = True\<rparr>)],
       kq_procs = [], allocated = [2, 1], open_pipes = [4, 3],
       stdout_text = [], stderr_text = [],
       history = [Started ''bad'' 1, Reaped 256 0],
       children = [\<lparr>child_pid = 100, child_dir = ''bad'', child_argv = [''false'']\<rparr>]\<rparr> \<and>
   exit_code_kqueue
     (main_kqueue Posix [''within'', ''bad'', ''false''] True
       [\<lparr>jobs_k = [ForkedK 100 3 4 (PiperAtK 1) (PiperAtK 2)], event_k = ProcExit 100 256,
         malloc_k = True, read_k = ReadBytes [], delete_k = True\<rparr>]) = Some 0"
  by code_simp

subsection \<open>When the loop ends\<close>

lemma loop_select_Ok_condition:
  "loop_select opts envs s0 = Ok s \<Longrightarrow> \<not> loop_condition_select opts s"
proof (induction envs arbitrary: s0)
  case Nil
  then show ?case by (simp split: if_splits)
next
  case (Cons env envs)
  then show ?case by (auto split: if_splits outcome.splits)
qed

lemma loop_select_Ok_same:
  "loop_select opts envs s = Ok s \<longleftrightarrow> \<not> loop_condition_select opts s"
proof
  assume "loop_select opts envs s = Ok s"
  then show "\<not> loop_condition_select opts s" by (rule loop_select_Ok_condition)
next
  assume "\<not> loop_condition_select opts s"
  then show "loop_select opts envs s = Ok s" by (cases envs) simp_all
qed

lemma loop_select_Ok_pipes:
  assumes "select_inv s0" and "loop_select opts envs s0 = Ok s"
  shows "set (open_pipes s) = set (eof_fds (history s))"
proof -
  have "select_inv s" using loop_select_select_inv[OF assms(1), of opts envs] assms(2) by simp
  moreover have "pipers s = []"
    using loop_select_Ok_condition[OF assms(2)] by (simp add: loop_condition_select_def)
  ultimately show ?thesis by (simp add: select_inv_def piper_fds_def)
qed

text \<open>
  Claim C2. The loop ends exactly when no directory is left, no job is running and no
  piper is left. In the select revision this is the loop's condition: a state in which
  the loop ends has the three properties, the loop ends at once in a state that has
  them, and waits for the environment in one that has not. Pipers leave the list only
  at a read of 0 bytes, so when the loop that \<^verbatim>\<open>main\<close> starts has ended, every pipe that
  was opened has delivered its end of stream.
\<close>

theorem C2_loop_termination:
  "(loop_select opts envs s0 = Ok s \<longrightarrow>
      length (directories opts) \<le> directory s \<and> num_jobs s = 0 \<and> pipers s = []) \<and>
   (loop_select opts envs s = Ok s \<longleftrightarrow>
      length (directories opts) \<le> directory s \<and> num_jobs s = 0 \<and> pipers s = []) \<and>
   (loop_condition_select opts s \<longrightarrow> loop_select opts [] s = Wait s) \<and>
   (loop_select opts envs initial_state = Ok s \<longrightarrow>
      set (open_pipes s) = set (eof_fds (history s)))"
  using loop_select_Ok_condition[of opts envs s0 s] loop_select_Ok_same[of opts envs s]
    loop_select_Ok_pipes[OF initial_invs(2), of opts envs s]
  by (auto simp: loop_condition_select_def)


theorem C2_loop_termination_witness:
  "loop_select \<lparr>max_jobs = 1, directories = [''d''], command = [''ls'']\<rparr>
     [\<lparr>jobs = [Forked 100 3 4 (PiperAt 1) (PiperAt 2)], selected = SelectReady [3, 4],
       reads = [(3, [ReadBytes []]), (4, [ReadBytes []])],
       waits = [WaitChild 100 0]\<rparr>] initial_state =
     Ok \<lparr>directory = 1, num_jobs = 0, status = 0, pipers = [], kq_procs = [],
          allocated = [], open_pipes = [4, 3], stdout_text = [], stderr_text = [],
          history = [Started ''d'' 1, Eof 4, Eof 3, Reaped 0 0],
       children = [\<lparr>child_pid = 100, child_dir = ''d'', child_argv = [''ls'']\<rparr>]\<rparr> \<and>
   set [4, 3] = set (eof_fds [Started ''d'' 1, Eof 4, Eof 3, Reaped 0 0]) \<and>
   loop_select \<lparr>max_jobs = 1, directories = [''d''], command = [''ls'']\<rparr> []
     \<lparr>directory = 1, num_jobs = 0, status = 0,
      pipers = [(2, \<lparr>in_fd = 4, out_file = Stderr, prefix = ''d'', newline = True\<rparr>)],
      kq_procs = [], allocated = [2], open_pipes = [4, 3], stdout_text = [],
      stderr_text = [], history = [Started ''d'' 1, Eof 3, Reaped 0 0],
       children = [\<lparr>child_pid = 100, child_dir = ''d'', child_argv = [''ls'']\<rparr>]\<rparr> =
     Wait \<lparr>directory = 1, num_jobs = 0, status = 0,
      pipers = [(2, \<lparr>in_fd = 4, out_file = Stderr, prefix = ''d'', newline = True\<rparr>)],
      kq_procs = [], allocated = [2], open_pipes = [4, 3], stdout_text = [],
      stderr_text = [], history = [Started ''d'' 1, Eof 3, Reaped 0 0],
       children = [\<lparr>child_pid = 100, child_dir = ''d'', child_argv = [''ls'']\<rparr>]\<rparr>"
proof -
  let ?opts = "\<lparr>max_jobs = 1, directories = [''d''], command = [''ls'']\<rparr>"
  let ?envs = "[\<lparr>jobs = [Forked 100 3 4 (PiperAt 1) (PiperAt 2)], selected = SelectReady [3, 4],
       reads = [(3, [ReadBytes []]), (4, [ReadBytes []])],
       waits = [WaitChild 100 0]\<rparr>]"
  let ?s = "\<lparr>directory = 1, num_jobs = 0, status = 0, pipers = [], kq_procs = [],
          allocated = [], open_pipes = [4, 3], stdout_text = [], stderr_text = [],
          history = [Started ''d'' 1, Eof 4, Eof 3, Reaped 0 0],
       children = [\<lparr>child_pid = 100, child_dir = ''d'', child_argv = [''ls'']\<rparr>]\<rparr>"
  let ?w = "\<lparr>directory = 1, num_jobs = 0, status = 0,
      pipers = [(2, \<lparr>in_fd = 4, out_file = Stderr, prefix = ''d'', newline = True\<rparr>)],
      kq_procs = [], allocated = [2], open_pipes = [4, 3], stdout_text = [],
      stderr_text = [], history = [Started ''d'' 1, Eof 3, Reaped 0 0],
       children = [\<lparr>child_pid = 100, child_dir = ''d'', child_argv = [''ls'']\<rparr>]\<rparr>"
  have run: "loop_select ?opts ?envs initial_state = Ok ?s"
    by code_simp
  have pipes: "set (open_pipes ?s) = set (eof_fds (history ?s))"
    using C2_loop_termination[of ?opts ?envs _ ?s] run by blast
  have "loop_condition_select ?opts ?w"
    by (simp add: loop_condition_select_def)
  then have wait: "loop_select ?opts [] ?w = Wait ?w"
    using C2_loop_termination[of ?opts _ _ ?w] by blast
  show ?thesis using run pipes wait by simp
qed

text \<open>
  The condition of the kqueue revision does not mention the pipers. When the exit event
  of the last child arrives before the events of its pipes, the loop ends with both
  pipers still registered and nothing read from them.
\<close>

theorem C2_kqueue_loop_counterexample:
  "loop_kqueue \<lparr>max_jobs = 1, directories = [''d''], command = [''ls'']\<rparr>
     [\<lparr>jobs_k = [ForkedK 100 3 4 (PiperAtK 1) (PiperAtK 2)], event_k = ProcExit 100 0,
       malloc_k = True, read_k = ReadBytes [], delete_k = True\<rparr>] initial_state =
     Ok \<lparr>directory = 1, num_jobs = 0, status = 0,
       pipers =
         [(2, \<lparr>in_fd = 4, out_file = Stderr, prefix = ''d'', newline = True\<rparr>),
          (1, \<lparr>in_fd = 3, out_file = Stdout, prefix = ''d'', newline = True\<rparr>)],
       kq_procs = [], allocated = [2, 1], open_pipes = [4, 3],
       stdout_text = [], stderr_text = [],
       history = [Started ''d'' 1, Reaped 0 0],
       children = [\<lparr>child_pid = 100, child_dir = ''d'', child_argv = [''ls'']\<rparr>]\<rparr> \<and>
   eof_fds [Started ''d'' 1, Reaped 0 0] = []"
  by code_simp

subsection \<open>End of stream and failed reads\<close>

lemma unlink_store_piper: "unlink a (store_piper a p ps) = unlink a ps"
  by (induction ps) auto

lemma map_of_unlink_distinct:
  "distinct (map fst ps) \<Longrightarrow> map_of (unlink a ps) a = None"
proof (induction ps)
  case Nil
  then show ?case by simp
next
  case (Cons x ps)
  obtain b q where x: "x = (b, q)" by (cases x)
  show ?case
  proof (cases "b = a")
    case True
    then have "a \<notin> fst ` set ps" using Cons.prems x by auto
    then show ?thesis using True x by (simp add: map_of_eq_None_iff)
  next
    case False
    then show ?thesis using Cons x by simp
  qed
qed

lemma run_piper_select_eof:
  "map_of (pipers s) a = Some p \<Longrightarrow>
   run_piper_select a (ReadBytes [] # rs) s =
     Ok (remove_piper a (s\<lparr>history := history s @ [Eof (in_fd p)]\<rparr>))"
  by simp

lemma remove_piper_allocated:
  "map_of (pipers s) a = Some p \<Longrightarrow> allocated (remove_piper a s) = remove1 a (allocated s)"
  by (auto simp: remove_piper_def dest: map_of_SomeD intro: rev_image_eqI)

lemma handle_event_kqueue_eof:
  assumes "map_of (pipers s) a = Some p" and "event_k env = Readable a n True"
    and "malloc_k env" and "read_k env = ReadBytes bytes" and "delete_k env"
  shows "\<exists>s'. handle_event_kqueue env s = Ok s' \<and> pipers s' = unlink a (pipers s) \<and>
           allocated s' = remove1 a (allocated s) \<and>
           open_pipes s' = removeAll (in_fd p) (open_pipes s)"
proof -
  let ?p' = "fst (run_piper_bytes p (stream_text (out_file p) s) bytes)"
  have r: "run_piper_kqueue a n (malloc_k env) (read_k env) s = Ok (write_bytes a p bytes s)"
    using assms by (simp add: run_piper_kqueue_def)
  have m: "map_of (pipers (write_bytes a p bytes s)) a = Some ?p'"
    using assms(1) by (simp add: map_of_store_piper_same)
  show ?thesis
    using assms r m
    by (simp add: handle_event_kqueue_def retire_piper_kqueue_def unlink_store_piper)
qed

text \<open>
  Claim C5. At the end of a stream the piper leaves the wait set, its descriptor is
  closed and the piper is freed. The kqueue revision does the three on an event with
  \<^verbatim>\<open>EV_EOF\<close>. The select revision, on a read of 0 bytes, unlinks the piper from the
  list and frees it, and leaves the descriptors that are open as they were: it has no
  \<^verbatim>\<open>close\<close> for the read end of a pipe. (With addresses that are distinct, as
  \<^verbatim>\<open>malloc\<close> gives them, the unlinked piper is no longer in the list.)
\<close>

theorem C5_end_of_stream:
  "map_of (pipers s) a = Some p \<Longrightarrow>
     (\<exists>s'. run_piper_select a (ReadBytes [] # rs) s = Ok s' \<and>
           pipers s' = unlink a (pipers s) \<and>
           allocated s' = remove1 a (allocated s) \<and>
           open_pipes s' = open_pipes s) \<and>
     (event_k env = Readable a n True \<and> malloc_k env \<and> read_k env = ReadBytes bytes \<and>
      delete_k env \<longrightarrow>
        (\<exists>s'. handle_event_kqueue env s = Ok s' \<and>
              pipers s' = unlink a (pipers s) \<and>
              allocated s' = remove1 a (allocated s) \<and>
              open_pipes s' = removeAll (in_fd p) (open_pipes s))) \<and>
     (distinct (map fst (pipers s)) \<longrightarrow> map_of (unlink a (pipers s)) a = None)"
  using handle_event_kqueue_eof[of s a p env n bytes] map_of_unlink_distinct[of "pipers s" a]
  by (simp add: remove_piper_allocated)


theorem C5_end_of_stream_witness:
  "handle_event_kqueue
     \<lparr>jobs_k = [], event_k = Readable 1 0 True, malloc_k = True, read_k = ReadBytes [],
      delete_k = True\<rparr>
     \<lparr>directory = 0, num_jobs = 0, status = 0,
      pipers =
        [(2, \<lparr>in_fd = 4, out_file = Stderr, prefix = ''d'', newline = True\<rparr>),
         (1, \<lparr>in_fd = 3, out_file = Stdout, prefix = ''d'', newline = True\<rparr>)],
      kq_procs = [100], allocated = [2, 1], open_pipes = [4, 3],
      stdout_text = [], stderr_text = [], history = [],
       children = []\<rparr> =
   Ok \<lparr>directory = 0, num_jobs = 0, status = 0,
      pipers = [(2, \<lparr>in_fd = 4, out_file = Stderr, prefix = ''d'', newline = True\<rparr>)],
      kq_procs = [100], allocated = [2], open_pipes = [4],
      stdout_text = [], stderr_text = [], history = [Eof 3],
       children = []\<rparr>"
proof -
  let ?env = "\<lparr>jobs_k = [], event_k = Readable 1 0 True, malloc_k = True,
      read_k = ReadBytes [], delete_k = True\<rparr>"
  let ?s = "\<lparr>directory = 0, num_jobs = 0, status = 0,
      pipers =
        [(2, \<lparr>in_fd = 4, out_file = Stderr, prefix = ''d'', newline = True\<rparr>),
         (1, \<lparr>in_fd = 3, out_file = Stdout, prefix = ''d'', newline = True\<rparr>)],
      kq_procs = [100], allocated = [2, 1], open_pipes = [4, 3],
      stdout_text = [], stderr_text = [], history = [],
       children = []\<rparr>"
  have m: "map_of (pipers ?s) 1 =
      Some \<lparr>in_fd = 3, out_file = Stdout, prefix = ''d'', newline = True\<rparr>"
    by simp
  obtain s' where s': "handle_event_kqueue ?env ?s = Ok s'"
    "pipers s' = unlink 1 (pipers ?s)" "allocated s' = remove1 1 (allocated ?s)"
    "open_pipes s' = removeAll (in_fd \<lparr>in_fd = 3, out_file = Stdout, prefix = ''d'',
        newline = True\<rparr>) (open_pipes ?s)"
    using C5_end_of_stream[OF m, of _ ?env 0 "[]"] by auto
  have "handle_event_kqueue ?env ?s =
      Ok \<lparr>directory = 0, num_jobs = 0, status = 0,
      pipers = [(2, \<lparr>in_fd = 4, out_file = Stderr, prefix = ''d'', newline = True\<rparr>)],
      kq_procs = [100], allocated = [2], open_pipes = [4],
      stdout_text = [], stderr_text = [], history = [Eof 3],
       children = []\<rparr>"
    by code_simp
  then show ?thesis using s' by simp
qed

text \<open>
  The select revision after one \<^verbatim>\<open>start_job\<close>, when the read on the pipe of the child's
  standard output returns 0: the piper at address 1 is gone from the list and from the
  allocated blocks, its descriptor 3 is still open.
\<close>

theorem C5_select_descriptor_counterexample:
  "start_job_select [''ls''] ''d'' (Forked 100 3 4 (PiperAt 1) (PiperAt 2)) initial_state =
     Inr \<lparr>directory = 0, num_jobs = 0, status = 0,
      pipers =
        [(2, \<lparr>in_fd = 4, out_file = Stderr, prefix = ''d'', newline = True\<rparr>),
         (1, \<lparr>in_fd = 3, out_file = Stdout, prefix = ''d'', newline = True\<rparr>)],
      kq_procs = [], allocated = [2, 1], open_pipes = [4, 3],
      stdout_text = [], stderr_text = [], history = [],
       children = [\<lparr>child_pid = 100, child_dir = ''d'', child_argv = [''ls'']\<rparr>]\<rparr> \<and>
   run_piper_select 1 [ReadBytes []]
     \<lparr>directory = 0, num_jobs = 0, status = 0,
      pipers =
        [(2, \<lparr>in_fd = 4, out_file = Stderr, prefix = ''d'', newline = True\<rparr>),
         (1, \<lparr>in_fd = 3, out_file = Stdout, prefix = ''d'', newline = True\<rparr>)],
      kq_procs = [], allocated = [2, 1], open_pipes = [4, 3],
      stdout_text = [], stderr_text = [], history = [],
       children = [\<lparr>child_pid = 100, child_dir = ''d'', child_argv = [''ls'']\<rparr>]\<rparr> =
     Ok \<lparr>directory = 0, num_jobs = 0, status = 0,
      pipers = [(2, \<lparr>in_fd = 4, out_file = Stderr, prefix = ''d'', newline = True\<rparr>)],
      kq_procs = [], allocated = [2], open_pipes = [4, 3],
      stdout_text = [], stderr_text = [], history = [Eof 3],
       children = [\<lparr>child_pid = 100, child_dir = ''d'', child_argv = [''ls'']\<rparr>]\<rparr> \<and>
   (3::int) \<in> set [4, 3]"
  by code_simp

lemma run_piper_select_data:
  "map_of (pipers s) a = Some p \<Longrightarrow> bytes \<noteq> [] \<Longrightarrow>
   run_piper_select a (ReadBytes bytes # ReadFail EAGAIN # rs) s = Ok (write_bytes a p bytes s)"
  by (simp add: map_of_store_piper_same)

lemma run_pipers_select_read_fails:
  "map_of (pipers s) a = Some p \<Longrightarrow> in_fd p \<in> set ready \<Longrightarrow>
   reads_on rd (in_fd p) = ReadFail e # rs \<Longrightarrow> e \<noteq> EAGAIN \<Longrightarrow>
   run_pipers_select (a # as) ready rd s = Die (Halt 1 ''read'')"
  by simp

text \<open>
  Claim C6. In the select revision, whose descriptors do not block, a read that fails
  with \<^verbatim>\<open>EAGAIN\<close> changes nothing: \<^verbatim>\<open>run_piper\<close> returns with the state it had (after
  earlier reads of the same call, with what they wrote), the piper stays in the list
  and is read again when \<^verbatim>\<open>select\<close> reports it. A read that fails with any other error
  ends the process through \<^verbatim>\<open>err(1, "read")\<close>, in both revisions, and every such end of
  \<^verbatim>\<open>main\<close> has the exit code 1. The kqueue revision leaves its descriptors blocking, so
  that \<^verbatim>\<open>EAGAIN\<close> does not arise there; its \<^verbatim>\<open>run_piper\<close> has no case for it.
\<close>

theorem C6_read_failures:
  "map_of (pipers s) a = Some p \<Longrightarrow>
     run_piper_select a (ReadFail EAGAIN # rs) s = Ok s \<and>
     (bytes \<noteq> [] \<longrightarrow>
        run_piper_select a (ReadBytes bytes # ReadFail EAGAIN # rs) s =
          Ok (write_bytes a p bytes s)) \<and>
     (e \<noteq> EAGAIN \<longrightarrow> run_piper_select a (ReadFail e # rs) s = Die (Halt 1 ''read'')) \<and>
     (e \<noteq> EAGAIN \<and> in_fd p \<in> set ready \<and> reads_on rd (in_fd p) = ReadFail e # rs \<longrightarrow>
        run_pipers_select (a # as) ready rd s = Die (Halt 1 ''read'')) \<and>
     (e \<noteq> EAGAIN \<longrightarrow> run_piper_kqueue a n True (ReadFail e) s = Die (Halt 1 ''read'')) \<and>
     (main_select k argv envs = Die h \<longrightarrow>
        exit_code_select (main_select k argv envs) = Some 1) \<and>
     (main_kqueue k argv kq kenvs = Die h \<longrightarrow>
        exit_code_kqueue (main_kqueue k argv kq kenvs) = Some 1)"
  using run_piper_select_data[of s a p bytes rs]
    run_pipers_select_read_fails[of s a p ready rd e rs as]
    main_select_Die[of k argv envs h] main_kqueue_Die[of k argv kq kenvs h]
  by (simp add: run_piper_kqueue_def)

theorem C6_read_failures_witness:
  "main_select Gnu [''within'', ''d'', ''ls'']
     [\<lparr>jobs = [Forked 100 3 4 (PiperAt 1) (PiperAt 2)], selected = SelectReady [4],
       reads = [(4, [ReadFail (Errno 5)])], waits = []\<rparr>] = Die (Halt 1 ''read'') \<and>
   exit_code_select
     (main_select Gnu [''within'', ''d'', ''ls'']
       [\<lparr>jobs = [Forked 100 3 4 (PiperAt 1) (PiperAt 2)], selected = SelectReady [4],
         reads = [(4, [ReadFail (Errno 5)])], waits = []\<rparr>]) = Some 1 \<and>
   run_piper_select 2 [ReadFail EAGAIN]
     \<lparr>directory = 0, num_jobs = 0, status = 0,
      pipers =
        [(2, \<lparr>in_fd = 4, out_file = Stderr, prefix = ''d'', newline = True\<rparr>),
         (1, \<lparr>in_fd = 3, out_file = Stdout, prefix = ''d'', newline = True\<rparr>)],
      kq_procs = [], allocated = [2, 1], open_pipes = [4, 3],
      stdout_text = [], stderr_text = [], history = [],
       children = []\<rparr> =
     Ok \<lparr>directory = 0, num_jobs = 0, status = 0,
      pipers =
        [(2, \<lparr>in_fd = 4, out_file = Stderr, prefix = ''d'', newline = True\<rparr>),
         (1, \<lparr>in_fd = 3, out_file = Stdout, prefix = ''d'', newline = True\<rparr>)],
      kq_procs = [], allocated = [2, 1], open_pipes = [4, 3],
      stdout_text = [], stderr_text = [], history = [],
       children = []\<rparr>"
proof -
  let ?argv = "[''within'', ''d'', ''ls'']"
  let ?envs = "[\<lparr>jobs = [Forked 100 3 4 (PiperAt 1) (PiperAt 2)], selected = SelectReady [4],
       reads = [(4, [ReadFail (Errno 5)])], waits = []\<rparr>]"
  let ?s = "\<lparr>directory = 0, num_jobs = 0, status = 0,
      pipers =
        [(2, \<lparr>in_fd = 4, out_file = Stderr, prefix = ''d'', newline = True\<rparr>),
         (1, \<lparr>in_fd = 3, out_file = Stdout, prefix = ''d'', newline = True\<rparr>)],
      kq_procs = [], allocated = [2, 1], open_pipes = [4, 3],
      stdout_text = [], stderr_text = [], history = [],
       children = []\<rparr>"
  have m: "map_of (pipers ?s) 2 =
      Some \<lparr>in_fd = 4, out_file = Stderr, prefix = ''d'', newline = True\<rparr>"
    by simp
  have die: "main_select Gnu ?argv ?envs = Die (Halt 1 ''read'')"
    by code_simp
  have code: "exit_code_select (main_select Gnu ?argv ?envs) = Some 1"
    using C6_read_failures[OF m, of _ _ _ _ _ _ _ Gnu ?argv ?envs "Halt 1 ''read''"] die by simp
  have again: "run_piper_select 2 [ReadFail EAGAIN] ?s = Ok ?s"
    using C6_read_failures[OF m, of "[]"] by simp
  show ?thesis using die code again by simp
qed

subsection \<open>A single directory\<close>

lemma holds_conj: "holds P r \<Longrightarrow> holds Q r \<Longrightarrow> holds (\<lambda>s. P s \<and> Q s) r"
  by (cases r) auto

lemma start_jobs_select_all_forked:
  "all_forked opts cs s \<Longrightarrow> holds (all_forked opts cs) (start_jobs_select opts es s)"
  by (simp add: start_jobs_select_full all_forked_def)

lemma start_jobs_kqueue_all_forked:
  "all_forked opts cs s \<Longrightarrow> holds (all_forked opts cs) (start_jobs_kqueue opts es s)"
  by (simp add: start_jobs_kqueue_full all_forked_def)

lemma frame_all_forked: "frame s s' \<Longrightarrow> all_forked opts cs s \<Longrightarrow> all_forked opts cs s'"
  by (simp add: frame_def all_forked_def)

lemma wait_for_data_all_forked:
  "all_forked opts cs s \<Longrightarrow> holds (all_forked opts cs) (wait_for_data sel rd s)"
  using wait_for_data_frame[of s sel rd] by (rule holds_mono) (simp add: frame_all_forked)

lemma collect_exits_all_forked:
  "all_forked opts cs s \<Longrightarrow> holds (all_forked opts cs) (collect_exits ws s)"
proof (induction ws arbitrary: s)
  case Nil
  then show ?case by simp
next
  case (Cons w ws)
  show ?case
  proof (cases w)
    case WaitFails
    then show ?thesis using Cons.prems by simp
  next
    case WaitNone
    then show ?thesis using Cons.prems by simp
  next
    case (WaitChild pid c)
    have "all_forked opts cs (s\<lparr>num_jobs := num_jobs s - 1,
            status := (if c \<noteq> 0 then 1 else status s),
            history := history s @ [Reaped c (num_jobs s - 1)]\<rparr>)"
      using Cons.prems by (simp add: all_forked_def)
    from Cons.IH[OF this] show ?thesis using WaitChild Cons.prems by simp
  qed
qed

lemma handle_event_kqueue_all_forked:
  assumes "all_forked opts cs s"
  shows "holds (all_forked opts cs) (handle_event_kqueue env s)"
proof (cases "event_k env")
  case KeventFails
  then show ?thesis by (simp add: handle_event_kqueue_def)
next
  case (ProcExit pid c)
  then show ?thesis using assms by (simp add: handle_event_kqueue_def all_forked_def)
next
  case (Readable a n eof)
  have h: "holds (frame s) (run_piper_kqueue a n (malloc_k env) (read_k env) s)"
    by (rule run_piper_kqueue_frame)
  show ?thesis
  proof (cases "run_piper_kqueue a n (malloc_k env) (read_k env) s")
    case (Ok s1)
    then have i1: "all_forked opts cs s1" using h assms by (simp add: frame_all_forked)
    have "holds (all_forked opts cs) (retire_piper_kqueue a (delete_k env) s1)"
      by (rule holds_mono[OF retire_piper_kqueue_frame[of s1 a "delete_k env"]])
         (simp add: frame_all_forked i1)
    then show ?thesis using Readable Ok i1 by (simp add: handle_event_kqueue_def)
  next
    case (Die h)
    then show ?thesis using Readable by (simp add: handle_event_kqueue_def)
  next
    case (Wait s1)
    then show ?thesis using Readable h assms
      by (simp add: handle_event_kqueue_def frame_all_forked)
  qed
next
  case OtherFilter
  then show ?thesis using assms by (simp add: handle_event_kqueue_def)
qed

lemma turn_of_select_all_forked:
  "all_forked opts cs s \<Longrightarrow> holds (all_forked opts cs) (turn_of_select opts env s)"
  by (intro turn_of_select_preserves start_jobs_select_all_forked
      wait_for_data_all_forked collect_exits_all_forked)

lemma loop_select_all_forked:
  "all_forked opts cs s \<Longrightarrow> holds (all_forked opts cs) (loop_select opts envs s)"
  by (intro loop_select_preserves turn_of_select_all_forked)

lemma turn_of_kqueue_all_forked:
  "all_forked opts cs s \<Longrightarrow> holds (all_forked opts cs) (turn_of_kqueue opts env s)"
  by (intro turn_of_kqueue_preserves start_jobs_kqueue_all_forked
      handle_event_kqueue_all_forked)

lemma loop_kqueue_all_forked:
  "all_forked opts cs s \<Longrightarrow> holds (all_forked opts cs) (loop_kqueue opts envs s)"
  by (intro loop_kqueue_preserves turn_of_kqueue_all_forked)

lemma start_jobs_select_single:
  assumes "directories opts = [a]" and "1 \<le> max_jobs opts"
  shows "\<exists>s1. start_jobs_select opts
             (Forked pid r_out r_err (PiperAt a_out) (PiperAt a_err) # es) initial_state = Ok s1 \<and>
           children s1 = [\<lparr>child_pid = pid, child_dir = a, child_argv = command opts\<rparr>] \<and>
           num_jobs s1 = 1 \<and> directory s1 = 1"
  using assms
  by (simp add: start_job_select_def start_piper_select_def initial_state_def
      start_jobs_select_full)

lemma start_jobs_kqueue_single:
  assumes "directories opts = [a]" and "1 \<le> max_jobs opts"
  shows "\<exists>s1. start_jobs_kqueue opts
             (ForkedK pid r_out r_err (PiperAtK a_out) (PiperAtK a_err) # es) initial_state = Ok s1 \<and>
           children s1 = [\<lparr>child_pid = pid, child_dir = a, child_argv = command opts\<rparr>] \<and>
           num_jobs s1 = 1 \<and> directory s1 = 1"
  using assms
  by (simp add: start_job_kqueue_def start_piper_kqueue_def initial_state_def
      start_jobs_kqueue_full)

lemma loop_select_single:
  assumes d: "directories opts = [a]" and m: "1 \<le> max_jobs opts"
    and j: "jobs env = Forked pid r_out r_err (PiperAt a_out) (PiperAt a_err) # es"
  shows "holds (all_forked opts [\<lparr>child_pid = pid, child_dir = a, child_argv = command opts\<rparr>])
           (loop_select opts (env # envs) initial_state)"
proof -
  let ?cs = "[\<lparr>child_pid = pid, child_dir = a, child_argv = command opts\<rparr>]"
  obtain s1 where s1: "start_jobs_select opts (jobs env) initial_state = Ok s1"
    "children s1 = ?cs" "directory s1 = 1"
    using start_jobs_select_single[OF d m, of pid r_out r_err a_out a_err es] j by auto
  have a1: "all_forked opts ?cs s1" using s1 d by (simp add: all_forked_def)
  have c: "loop_condition_select opts initial_state"
    using d by (simp add: loop_condition_select_def initial_state_def)
  have t: "holds (all_forked opts ?cs) (turn_of_select opts env initial_state)"
  proof (cases "wait_for_data (selected env) (reads env) s1")
    case (Ok s2)
    then have "all_forked opts ?cs s2"
      using wait_for_data_all_forked[OF a1, of "selected env" "reads env"] by simp
    then show ?thesis
      using s1(1) Ok collect_exits_all_forked by (simp add: turn_of_select_def)
  next
    case (Die h)
    then show ?thesis using s1(1) by (simp add: turn_of_select_def)
  next
    case (Wait s2)
    then show ?thesis
      using wait_for_data_all_forked[OF a1, of "selected env" "reads env"] s1(1)
      by (simp add: turn_of_select_def)
  qed
  show ?thesis
  proof (cases "turn_of_select opts env initial_state")
    case (Ok s')
    then show ?thesis using c t loop_select_all_forked[of opts ?cs s' envs] by simp
  next
    case (Die h)
    then show ?thesis using c by simp
  next
    case (Wait s')
    then show ?thesis using c t by simp
  qed
qed

lemma loop_kqueue_single:
  assumes d: "directories opts = [a]" and m: "1 \<le> max_jobs opts"
    and j: "jobs_k env = ForkedK pid r_out r_err (PiperAtK a_out) (PiperAtK a_err) # es"
  shows "holds (all_forked opts [\<lparr>child_pid = pid, child_dir = a, child_argv = command opts\<rparr>])
           (loop_kqueue opts (env # envs) initial_state)"
proof -
  let ?cs = "[\<lparr>child_pid = pid, child_dir = a, child_argv = command opts\<rparr>]"
  obtain s1 where s1: "start_jobs_kqueue opts (jobs_k env) initial_state = Ok s1"
    "children s1 = ?cs" "directory s1 = 1"
    using start_jobs_kqueue_single[OF d m, of pid r_out r_err a_out a_err es] j by auto
  have a1: "all_forked opts ?cs s1" using s1 d by (simp add: all_forked_def)
  have c: "loop_condition_kqueue opts initial_state"
    using d by (simp add: loop_condition_kqueue_def initial_state_def)
  have t: "holds (all_forked opts ?cs) (turn_of_kqueue opts env initial_state)"
    using s1(1) handle_event_kqueue_all_forked[OF a1, of env] by (simp add: turn_of_kqueue_def)
  show ?thesis
  proof (cases "turn_of_kqueue opts env initial_state")
    case (Ok s')
    then show ?thesis using c t loop_kqueue_all_forked[of opts ?cs s' envs] by simp
  next
    case (Die h)
    then show ?thesis using c by simp
  next
    case (Wait s')
    then show ?thesis using c t by simp
  qed
qed

lemma main_kqueue_Ok:
  assumes "main_kqueue k argv kq envs = Ok s"
  shows "\<exists>opts. parse_options k is_separator_kqueue argv = Inr opts \<and>
           loop_kqueue opts envs initial_state = Ok s \<and> jobs_inv opts s \<and>
           \<not> loop_condition_kqueue opts s \<and> started_dirs (history s) = directories opts"
proof -
  obtain opts where p: "parse_options k is_separator_kqueue argv = Inr opts"
    and l: "loop_kqueue opts envs initial_state = Ok s"
    using assms by (auto simp: main_kqueue_def split: sum.splits if_splits)
  have m: "0 \<le> max_jobs opts" using parse_options_Inr[OF p] by simp
  have i0: "jobs_inv opts initial_state" by (rule initial_invs(1)[OF m])
  have "jobs_inv opts s" using loop_kqueue_jobs_inv[OF i0, of envs] l by simp
  then show ?thesis
    using p l loop_kqueue_Ok_all_started[OF i0 l] by blast
qed

lemma main_select_jobs_inv:
  assumes "parse_options k is_separator_select argv = Inr opts"
  shows "holds (jobs_inv opts) (main_select k argv envs)"
proof -
  have "0 \<le> max_jobs opts" using parse_options_Inr[OF assms] by simp
  then show ?thesis
    using loop_select_jobs_inv[OF initial_invs(1), of opts envs] assms
    by (simp add: main_select_def)
qed

lemma main_kqueue_jobs_inv:
  assumes "parse_options k is_separator_kqueue argv = Inr opts"
  shows "holds (jobs_inv opts) (main_kqueue k argv kq envs)"
proof -
  have "0 \<le> max_jobs opts" using parse_options_Inr[OF assms] by simp
  then show ?thesis
    using loop_kqueue_jobs_inv[OF initial_invs(1), of opts envs] assms
    by (simp add: main_kqueue_def)
qed

lemma parse_options_split:
  "getopt_args k (drop 1 argv) = Inr (mj, args) \<Longrightarrow> split_arguments sep args = Inr (dirs, cmd) \<Longrightarrow>
   parse_options k sep argv = Inr \<lparr>max_jobs = mj, directories = dirs, command = cmd\<rparr>"
  by (simp add: parse_options_def)

lemma main_select_child_argv:
  assumes "parse_options k is_separator_select argv = Inr opts"
  shows "holds (\<lambda>s. list_all (\<lambda>c. child_argv c = command opts) (children s) \<and>
                    map child_dir (children s) = take (directory s) (directories opts))
           (main_select k argv envs)"
  by (rule holds_mono[OF main_select_jobs_inv[OF assms]]) (simp add: jobs_inv_def)

lemma main_kqueue_child_argv:
  assumes "parse_options k is_separator_kqueue argv = Inr opts"
  shows "holds (\<lambda>s. list_all (\<lambda>c. child_argv c = command opts) (children s) \<and>
                    map child_dir (children s) = take (directory s) (directories opts))
           (main_kqueue k argv kq envs)"
  by (rule holds_mono[OF main_kqueue_jobs_inv[OF assms]]) (simp add: jobs_inv_def)

lemma main_select_single:
  assumes p: "parse_options k is_separator_select argv = Inr opts" and d: "directories opts = [a]"
    and j: "jobs env = Forked pid r_out r_err (PiperAt a_out) (PiperAt a_err) # es"
  shows "holds (\<lambda>s. children s = [\<lparr>child_pid = pid, child_dir = a, child_argv = command opts\<rparr>] \<and>
                    started_dirs (history s) = [a])
           (main_select k argv (env # envs))"
proof -
  have m: "1 \<le> max_jobs opts" using parse_options_Inr[OF p] by simp
  have "holds (\<lambda>s. all_forked opts
            [\<lparr>child_pid = pid, child_dir = a, child_argv = command opts\<rparr>] s \<and> jobs_inv opts s)
          (main_select k argv (env # envs))"
    using loop_select_single[OF d m j, of envs] main_select_jobs_inv[OF p, of "env # envs"]
    by (intro holds_conj) (simp_all add: main_select_def p)
  then show ?thesis
    by (rule holds_mono) (simp add: all_forked_def jobs_inv_def d)
qed

lemma main_kqueue_single:
  assumes p: "parse_options k is_separator_kqueue argv = Inr opts" and d: "directories opts = [a]"
    and j: "jobs_k env = ForkedK pid r_out r_err (PiperAtK a_out) (PiperAtK a_err) # es"
  shows "holds (\<lambda>s. children s = [\<lparr>child_pid = pid, child_dir = a, child_argv = command opts\<rparr>] \<and>
                    started_dirs (history s) = [a])
           (main_kqueue k argv kq (env # envs))"
proof (cases kq)
  case False
  then show ?thesis using p by (simp add: main_kqueue_def)
next
  case True
  have m: "1 \<le> max_jobs opts" using parse_options_Inr[OF p] by simp
  have "holds (\<lambda>s. all_forked opts
            [\<lparr>child_pid = pid, child_dir = a, child_argv = command opts\<rparr>] s \<and> jobs_inv opts s)
          (main_kqueue k argv kq (env # envs))"
    using loop_kqueue_single[OF d m j, of envs] main_kqueue_jobs_inv[OF p, of kq "env # envs"] True
    by (intro holds_conj) (simp_all add: main_kqueue_def p)
  then show ?thesis
    by (rule holds_mono) (simp add: all_forked_def jobs_inv_def d)
qed

lemma one_child:
  "map child_dir cs = [a] \<Longrightarrow> list_all (\<lambda>c. child_argv c = cmd) cs \<Longrightarrow>
   \<exists>pid. cs = [\<lparr>child_pid = pid, child_dir = a, child_argv = cmd\<rparr>]"
proof -
  assume m: "map child_dir cs = [a]" and l: "list_all (\<lambda>c. child_argv c = cmd) cs"
  then obtain c where c: "cs = [c]" "child_dir c = a" "child_argv c = cmd"
    by (cases cs) auto
  have "c = \<lparr>child_pid = child_pid c, child_dir = a, child_argv = cmd\<rparr>"
    using c(2,3) by (cases c) simp
  then show ?thesis using c(1) by blast
qed

lemma main_select_Ok_single:
  assumes p: "parse_options k is_separator_select argv = Inr opts" and d: "directories opts = [a]"
    and r: "main_select k argv envs = Ok s"
  shows "\<exists>pid. children s = [\<lparr>child_pid = pid, child_dir = a, child_argv = command opts\<rparr>]"
proof -
  have "0 \<le> max_jobs opts" using parse_options_Inr[OF p] by simp
  then have i0: "jobs_inv opts initial_state" by (rule initial_invs(1))
  have l: "loop_select opts envs initial_state = Ok s" using r p by (simp add: main_select_def)
  have "map child_dir (children s) = [a]"
    using loop_select_Ok_all_started[OF i0 l] d by simp
  moreover have "list_all (\<lambda>c. child_argv c = command opts) (children s)"
    using main_select_child_argv[OF p, of envs] r by simp
  ultimately show ?thesis by (rule one_child)
qed

lemma main_kqueue_Ok_single:
  assumes p: "parse_options k is_separator_kqueue argv = Inr opts" and d: "directories opts = [a]"
    and r: "main_kqueue k argv kq envs = Ok s"
  shows "\<exists>pid. children s = [\<lparr>child_pid = pid, child_dir = a, child_argv = command opts\<rparr>]"
proof -
  have "0 \<le> max_jobs opts" using parse_options_Inr[OF p] by simp
  then have i0: "jobs_inv opts initial_state" by (rule initial_invs(1))
  have l: "loop_kqueue opts envs initial_state = Ok s"
    using r p by (simp add: main_kqueue_def split: if_splits)
  have "map child_dir (children s) = [a]"
    using loop_kqueue_Ok_all_started[OF i0 l] d by simp
  moreover have "list_all (\<lambda>c. child_argv c = command opts) (children s)"
    using main_kqueue_child_argv[OF p, of kq envs] r by simp
  ultimately show ?thesis by (rule one_child)
qed

lemma getopt_args_posix_operand:
  "\<not> option_like a \<Longrightarrow> getopt_args Posix (a # as) = Inr (1, a # as)"
  by (simp add: getopt_args_def getopt_loop_not_option)

lemma getopt_args_gnu_end_of_options:
  "\<forall>a \<in> set pre. \<not> option_like a \<Longrightarrow>
   getopt_args Gnu (pre @ ''--'' # post) = Inr (1, pre @ post)"
  using getopt_loop_gnu_end_of_options[of pre 1 "[]" post] by (simp add: getopt_args_def)

text \<open>
  Claim C8. When none of the non-option arguments is a separator and there are at least
  two of them, the first is the only directory and the others are the command: no
  separator is needed for a single directory. The non-option arguments are what \<^verbatim>\<open>getopt\<close>
  leaves (\<open>a # rest\<close>); this holds for the \<^verbatim>\<open>getopt\<close> of either kind and the separator
  test of either revision (\<open>sep\<close> is any test). With POSIX's \<^verbatim>\<open>getopt\<close> the arguments are
  left as they are when the directory does not look like an option; with glibc's, when
  none of them does, or when the options of the command are shielded by \<^verbatim>\<open>--\<close>.

  Exactly one job is then run, in both revisions. When \<^verbatim>\<open>pipe\<close>, \<^verbatim>\<open>fork\<close> and the calls of
  \<^verbatim>\<open>start_piper\<close> succeed, the first turn of the loop forks one child, which changes to
  the directory and executes the command; and in every state that \<^verbatim>\<open>main\<close> comes to from
  there, whatever the environment does, this child is the only one that was ever
  forked. Whatever the environment does, a run of \<^verbatim>\<open>main\<close> that comes to its end has
  forked exactly one child, for that directory and that command.
\<close>

theorem C8_single_directory:
  assumes ns: "\<forall>x \<in> set (a # rest). \<not> sep x" and r: "rest \<noteq> []"
  shows
  "split_arguments sep (a # rest) = Inr ([a], rest) \<and>
   (getopt_args k (drop 1 argv) = Inr (mj, a # rest) \<longrightarrow>
      parse_options k sep argv = Inr \<lparr>max_jobs = mj, directories = [a], command = rest\<rparr>) \<and>
   (\<not> option_like a \<longrightarrow>
      parse_options Posix sep (prog # a # rest) =
        Inr \<lparr>max_jobs = 1, directories = [a], command = rest\<rparr>) \<and>
   ((\<forall>x \<in> set (a # rest). \<not> option_like x) \<longrightarrow>
      parse_options k sep (prog # a # rest) =
        Inr \<lparr>max_jobs = 1, directories = [a], command = rest\<rparr>) \<and>
   (\<not> option_like a \<longrightarrow>
      parse_options Gnu sep (prog # a # ''--'' # rest) =
        Inr \<lparr>max_jobs = 1, directories = [a], command = rest\<rparr>) \<and>
   (sep = is_separator_select \<and> getopt_args k (drop 1 argv) = Inr (mj, a # rest) \<and>
    jobs env = Forked pid r_out r_err (PiperAt a_out) (PiperAt a_err) # es \<longrightarrow>
      (\<exists>s1. start_jobs_select \<lparr>max_jobs = mj, directories = [a], command = rest\<rparr>
               (jobs env) initial_state = Ok s1 \<and>
            children s1 = [\<lparr>child_pid = pid, child_dir = a, child_argv = rest\<rparr>] \<and>
            num_jobs s1 = 1 \<and> directory s1 = 1) \<and>
      holds (\<lambda>s. children s = [\<lparr>child_pid = pid, child_dir = a, child_argv = rest\<rparr>] \<and>
                 started_dirs (history s) = [a])
        (main_select k argv (env # envs))) \<and>
   (sep = is_separator_kqueue \<and> getopt_args k (drop 1 argv) = Inr (mj, a # rest) \<and>
    jobs_k kenv = ForkedK pid r_out r_err (PiperAtK a_out) (PiperAtK a_err) # kes \<longrightarrow>
      (\<exists>s1. start_jobs_kqueue \<lparr>max_jobs = mj, directories = [a], command = rest\<rparr>
               (jobs_k kenv) initial_state = Ok s1 \<and>
            children s1 = [\<lparr>child_pid = pid, child_dir = a, child_argv = rest\<rparr>] \<and>
            num_jobs s1 = 1 \<and> directory s1 = 1) \<and>
      holds (\<lambda>s. children s = [\<lparr>child_pid = pid, child_dir = a, child_argv = rest\<rparr>] \<and>
                 started_dirs (history s) = [a])
        (main_kqueue k argv kq (kenv # kenvs))) \<and>
   (sep = is_separator_select \<and> getopt_args k (drop 1 argv) = Inr (mj, a # rest) \<and>
    main_select k argv envs = Ok s \<longrightarrow>
      (\<exists>p. children s = [\<lparr>child_pid = p, child_dir = a, child_argv = rest\<rparr>]) \<and>
      started_dirs (history s) = [a]) \<and>
   (sep = is_separator_kqueue \<and> getopt_args k (drop 1 argv) = Inr (mj, a # rest) \<and>
    main_kqueue k argv kq kenvs = Ok s \<longrightarrow>
      (\<exists>p. children s = [\<lparr>child_pid = p, child_dir = a, child_argv = rest\<rparr>]) \<and>
      started_dirs (history s) = [a])"
proof -
  let ?opts = "\<lparr>max_jobs = mj, directories = [a], command = rest\<rparr>"
  have len: "2 \<le> length (a # rest)" using r by (cases rest) auto
  have sp: "split_arguments sep (a # rest) = Inr ([a], rest)"
    using split_arguments_no_separator[OF ns len] by simp
  have po: "getopt_args k (drop 1 argv) = Inr (mj, a # rest) \<longrightarrow>
      parse_options k sep argv = Inr ?opts"
    using parse_options_split[OF _ sp] by blast
  have px: "\<not> option_like a \<longrightarrow>
      parse_options Posix sep (prog # a # rest) =
        Inr \<lparr>max_jobs = 1, directories = [a], command = rest\<rparr>"
    using parse_options_split[OF _ sp, of Posix "prog # a # rest" 1]
      getopt_args_posix_operand[of a rest] by simp
  have pa: "(\<forall>x \<in> set (a # rest). \<not> option_like x) \<longrightarrow>
      parse_options k sep (prog # a # rest) =
        Inr \<lparr>max_jobs = 1, directories = [a], command = rest\<rparr>"
    using parse_options_split[OF _ sp, of k "prog # a # rest" 1]
      getopt_args_operands[of "a # rest" k] by simp
  have pg: "\<not> option_like a \<longrightarrow>
      parse_options Gnu sep (prog # a # ''--'' # rest) =
        Inr \<lparr>max_jobs = 1, directories = [a], command = rest\<rparr>"
    using parse_options_split[OF _ sp, of Gnu "prog # a # ''--'' # rest" 1]
      getopt_args_gnu_end_of_options[of "[a]" rest] by simp
  have ss: "sep = is_separator_select \<and> getopt_args k (drop 1 argv) = Inr (mj, a # rest) \<and>
    jobs env = Forked pid r_out r_err (PiperAt a_out) (PiperAt a_err) # es \<longrightarrow>
      (\<exists>s1. start_jobs_select ?opts (jobs env) initial_state = Ok s1 \<and>
            children s1 = [\<lparr>child_pid = pid, child_dir = a, child_argv = rest\<rparr>] \<and>
            num_jobs s1 = 1 \<and> directory s1 = 1) \<and>
      holds (\<lambda>s. children s = [\<lparr>child_pid = pid, child_dir = a, child_argv = rest\<rparr>] \<and>
                 started_dirs (history s) = [a])
        (main_select k argv (env # envs))"
  proof
    assume h: "sep = is_separator_select \<and> getopt_args k (drop 1 argv) = Inr (mj, a # rest) \<and>
      jobs env = Forked pid r_out r_err (PiperAt a_out) (PiperAt a_err) # es"
    then have p: "parse_options k is_separator_select argv = Inr ?opts" using po by simp
    have m: "1 \<le> max_jobs ?opts" using parse_options_Inr[OF p] by simp
    show "(\<exists>s1. start_jobs_select ?opts (jobs env) initial_state = Ok s1 \<and>
            children s1 = [\<lparr>child_pid = pid, child_dir = a, child_argv = rest\<rparr>] \<and>
            num_jobs s1 = 1 \<and> directory s1 = 1) \<and>
      holds (\<lambda>s. children s = [\<lparr>child_pid = pid, child_dir = a, child_argv = rest\<rparr>] \<and>
                 started_dirs (history s) = [a])
        (main_select k argv (env # envs))"
      using start_jobs_select_single[of ?opts a pid r_out r_err a_out a_err es] m h
        main_select_single[OF p, of a env pid r_out r_err a_out a_err es envs]
      by simp
  qed
  have sk: "sep = is_separator_kqueue \<and> getopt_args k (drop 1 argv) = Inr (mj, a # rest) \<and>
    jobs_k kenv = ForkedK pid r_out r_err (PiperAtK a_out) (PiperAtK a_err) # kes \<longrightarrow>
      (\<exists>s1. start_jobs_kqueue ?opts (jobs_k kenv) initial_state = Ok s1 \<and>
            children s1 = [\<lparr>child_pid = pid, child_dir = a, child_argv = rest\<rparr>] \<and>
            num_jobs s1 = 1 \<and> directory s1 = 1) \<and>
      holds (\<lambda>s. children s = [\<lparr>child_pid = pid, child_dir = a, child_argv = rest\<rparr>] \<and>
                 started_dirs (history s) = [a])
        (main_kqueue k argv kq (kenv # kenvs))"
  proof
    assume h: "sep = is_separator_kqueue \<and> getopt_args k (drop 1 argv) = Inr (mj, a # rest) \<and>
      jobs_k kenv = ForkedK pid r_out r_err (PiperAtK a_out) (PiperAtK a_err) # kes"
    then have p: "parse_options k is_separator_kqueue argv = Inr ?opts" using po by simp
    have m: "1 \<le> max_jobs ?opts" using parse_options_Inr[OF p] by simp
    show "(\<exists>s1. start_jobs_kqueue ?opts (jobs_k kenv) initial_state = Ok s1 \<and>
            children s1 = [\<lparr>child_pid = pid, child_dir = a, child_argv = rest\<rparr>] \<and>
            num_jobs s1 = 1 \<and> directory s1 = 1) \<and>
      holds (\<lambda>s. children s = [\<lparr>child_pid = pid, child_dir = a, child_argv = rest\<rparr>] \<and>
                 started_dirs (history s) = [a])
        (main_kqueue k argv kq (kenv # kenvs))"
      using start_jobs_kqueue_single[of ?opts a pid r_out r_err a_out a_err kes] m h
        main_kqueue_single[OF p, of a kenv pid r_out r_err a_out a_err kes kq kenvs]
      by simp
  qed
  have os: "sep = is_separator_select \<and> getopt_args k (drop 1 argv) = Inr (mj, a # rest) \<and>
    main_select k argv envs = Ok s \<longrightarrow>
      (\<exists>p. children s = [\<lparr>child_pid = p, child_dir = a, child_argv = rest\<rparr>]) \<and>
      started_dirs (history s) = [a]"
  proof
    assume h: "sep = is_separator_select \<and> getopt_args k (drop 1 argv) = Inr (mj, a # rest) \<and>
      main_select k argv envs = Ok s"
    then have p: "parse_options k is_separator_select argv = Inr ?opts" using po by simp
    show "(\<exists>p. children s = [\<lparr>child_pid = p, child_dir = a, child_argv = rest\<rparr>]) \<and>
      started_dirs (history s) = [a]"
      using main_select_Ok_single[OF p, of a envs s] main_select_Ok[of k argv envs s] h p
      by auto
  qed
  have ok: "sep = is_separator_kqueue \<and> getopt_args k (drop 1 argv) = Inr (mj, a # rest) \<and>
    main_kqueue k argv kq kenvs = Ok s \<longrightarrow>
      (\<exists>p. children s = [\<lparr>child_pid = p, child_dir = a, child_argv = rest\<rparr>]) \<and>
      started_dirs (history s) = [a]"
  proof
    assume h: "sep = is_separator_kqueue \<and> getopt_args k (drop 1 argv) = Inr (mj, a # rest) \<and>
      main_kqueue k argv kq kenvs = Ok s"
    then have p: "parse_options k is_separator_kqueue argv = Inr ?opts" using po by simp
    show "(\<exists>p. children s = [\<lparr>child_pid = p, child_dir = a, child_argv = rest\<rparr>]) \<and>
      started_dirs (history s) = [a]"
      using main_kqueue_Ok_single[OF p, of a kq kenvs s] main_kqueue_Ok[of k argv kq kenvs s] h p
      by auto
  qed
  show ?thesis using sp po px pa pg ss sk os ok by blast
qed

theorem C8_single_directory_witness:
  "parse_options Gnu is_separator_select [''within'', ''code/msort'', ''git'', ''status''] =
     Inr \<lparr>max_jobs = 1, directories = [''code/msort''], command = [''git'', ''status'']\<rparr> \<and>
   parse_options Posix is_separator_kqueue [''within'', ''code/msort'', ''git'', ''log'', ''-1''] =
     Inr \<lparr>max_jobs = 1, directories = [''code/msort''],
          command = [''git'', ''log'', ''-1'']\<rparr> \<and>
   parse_options Gnu is_separator_select
       [''within'', ''code/msort'', ''--'', ''git'', ''log'', ''-1''] =
     Inr \<lparr>max_jobs = 1, directories = [''code/msort''],
          command = [''git'', ''log'', ''-1'']\<rparr> \<and>
   (\<exists>s. main_select Gnu [''within'', ''code/msort'', ''git'', ''status'']
          [\<lparr>jobs = [Forked 100 3 4 (PiperAt 1) (PiperAt 2)], selected = SelectReady [3, 4],
            reads = [(3, [ReadBytes []]), (4, [ReadBytes []])],
            waits = [WaitChild 100 0]\<rparr>] = Ok s \<and>
        children s =
          [\<lparr>child_pid = 100, child_dir = ''code/msort'', child_argv = [''git'', ''status'']\<rparr>] \<and>
        started_dirs (history s) = [''code/msort'']) \<and>
   (\<exists>s. main_kqueue Posix [''within'', ''code/msort'', ''git'', ''log'', ''-1''] True
          [\<lparr>jobs_k = [ForkedK 100 3 4 (PiperAtK 1) (PiperAtK 2)], event_k = Readable 1 0 True,
            malloc_k = True, read_k = ReadBytes [], delete_k = True\<rparr>,
           \<lparr>jobs_k = [], event_k = Readable 2 0 True,
            malloc_k = True, read_k = ReadBytes [], delete_k = True\<rparr>,
           \<lparr>jobs_k = [], event_k = ProcExit 100 0,
            malloc_k = True, read_k = ReadBytes [], delete_k = True\<rparr>] = Ok s \<and>
        children s =
          [\<lparr>child_pid = 100, child_dir = ''code/msort'',
            child_argv = [''git'', ''log'', ''-1'']\<rparr>] \<and>
        started_dirs (history s) = [''code/msort'']) \<and>
   (\<exists>s. main_kqueue Posix [''within'', ''code/msort'', ''git'', ''log'', ''-1''] True
          [\<lparr>jobs_k = [ForkedK 100 3 4 (PiperAtK 1) (PiperAtK 2)], event_k = Readable 1 0 True,
            malloc_k = True, read_k = ReadBytes [], delete_k = True\<rparr>] = Wait s \<and>
        children s =
          [\<lparr>child_pid = 100, child_dir = ''code/msort'',
            child_argv = [''git'', ''log'', ''-1'']\<rparr>] \<and>
        started_dirs (history s) = [''code/msort''])"
proof -
  let ?a = "''code/msort''"
  let ?sargv = "[''within'', ''code/msort'', ''git'', ''status'']"
  let ?kargv = "[''within'', ''code/msort'', ''git'', ''log'', ''-1'']"
  let ?senv = "\<lparr>jobs = [Forked 100 3 4 (PiperAt 1) (PiperAt 2)], selected = SelectReady [3, 4],
            reads = [(3, [ReadBytes []]), (4, [ReadBytes []])],
            waits = [WaitChild 100 0]\<rparr>"
  let ?k1 = "\<lparr>jobs_k = [ForkedK 100 3 4 (PiperAtK 1) (PiperAtK 2)], event_k = Readable 1 0 True,
            malloc_k = True, read_k = ReadBytes [], delete_k = True\<rparr>"
  let ?k2 = "\<lparr>jobs_k = [], event_k = Readable 2 0 True,
            malloc_k = True, read_k = ReadBytes [], delete_k = True\<rparr>"
  let ?k3 = "\<lparr>jobs_k = [], event_k = ProcExit 100 0,
            malloc_k = True, read_k = ReadBytes [], delete_k = True\<rparr>"
  have ns: "\<forall>x \<in> set [?a, ''git'', ''status'']. \<not> is_separator_select x"
    "\<forall>x \<in> set [?a, ''git'', ''log'', ''-1'']. \<not> is_separator_kqueue x"
    "\<forall>x \<in> set [?a, ''git'', ''log'', ''-1'']. \<not> is_separator_select x"
    by (simp_all add: is_separator_select_def is_separator_kqueue_def)
  have gs: "getopt_args Gnu (drop 1 ?sargv) = Inr (1, [?a, ''git'', ''status''])"
    and gk: "getopt_args Posix (drop 1 ?kargv) = Inr (1, [?a, ''git'', ''log'', ''-1''])"
    by (simp_all add: getopt_args_def)
  note sel = C8_single_directory[OF ns(1), where k = Gnu and argv = ?sargv and mj = 1
      and env = ?senv and pid = 100 and r_out = 3 and r_err = 4 and a_out = 1 and a_err = 2
      and es = "[]" and envs = "[]"]
  note kq = C8_single_directory[OF ns(2), where k = Posix and argv = ?kargv and mj = 1
      and kenv = ?k1 and pid = 100 and r_out = 3 and r_err = 4 and a_out = 1 and a_err = 2
      and kes = "[]" and kq = True]
  note gnu = C8_single_directory[OF ns(3), where prog = "''within''"]
  have a: "parse_options Gnu is_separator_select ?sargv =
      Inr \<lparr>max_jobs = 1, directories = [?a], command = [''git'', ''status'']\<rparr>"
    using sel gs by simp
  have b: "parse_options Posix is_separator_kqueue ?kargv =
      Inr \<lparr>max_jobs = 1, directories = [?a], command = [''git'', ''log'', ''-1'']\<rparr>"
    using kq gk by simp
  have c: "parse_options Gnu is_separator_select [''within'', ?a, ''--'', ''git'', ''log'', ''-1''] =
      Inr \<lparr>max_jobs = 1, directories = [?a], command = [''git'', ''log'', ''-1'']\<rparr>"
    using gnu by (simp add: option_like_def)
  have hs: "holds (\<lambda>s. children s =
          [\<lparr>child_pid = 100, child_dir = ?a, child_argv = [''git'', ''status'']\<rparr>] \<and>
        started_dirs (history s) = [?a]) (main_select Gnu ?sargv [?senv])"
    using sel gs by simp
  have hk: "\<And>kenvs. holds (\<lambda>s. children s =
          [\<lparr>child_pid = 100, child_dir = ?a, child_argv = [''git'', ''log'', ''-1'']\<rparr>] \<and>
        started_dirs (history s) = [?a]) (main_kqueue Posix ?kargv True (?k1 # kenvs))"
    using kq gk by simp
  have "main_select Gnu ?sargv [?senv] =
      Ok \<lparr>directory = 1, num_jobs = 0, status = 0, pipers = [], kq_procs = [],
        allocated = [], open_pipes = [4, 3], stdout_text = [], stderr_text = [],
        history = [Started ?a 1, Eof 4, Eof 3, Reaped 0 0],
        children = [\<lparr>child_pid = 100, child_dir = ?a, child_argv = [''git'', ''status'']\<rparr>]\<rparr>"
    by code_simp
  then have d: "\<exists>s. main_select Gnu ?sargv [?senv] = Ok s \<and>
        children s =
          [\<lparr>child_pid = 100, child_dir = ?a, child_argv = [''git'', ''status'']\<rparr>] \<and>
        started_dirs (history s) = [?a]"
    using hs by auto
  have "main_kqueue Posix ?kargv True [?k1, ?k2, ?k3] =
      Ok \<lparr>directory = 1, num_jobs = 0, status = 0, pipers = [], kq_procs = [],
        allocated = [], open_pipes = [], stdout_text = [], stderr_text = [],
        history = [Started ?a 1, Eof 3, Eof 4, Reaped 0 0],
        children =
          [\<lparr>child_pid = 100, child_dir = ?a, child_argv = [''git'', ''log'', ''-1'']\<rparr>]\<rparr>"
    by code_simp
  then have e: "\<exists>s. main_kqueue Posix ?kargv True [?k1, ?k2, ?k3] = Ok s \<and>
        children s =
          [\<lparr>child_pid = 100, child_dir = ?a, child_argv = [''git'', ''log'', ''-1'']\<rparr>] \<and>
        started_dirs (history s) = [?a]"
    using hk[of "[?k2, ?k3]"] by auto
  have "main_kqueue Posix ?kargv True [?k1] =
      Wait \<lparr>directory = 1, num_jobs = 1, status = 0,
        pipers = [(2, \<lparr>in_fd = 4, out_file = Stderr, prefix = ?a, newline = True\<rparr>)],
        kq_procs = [100], allocated = [2], open_pipes = [4], stdout_text = [],
        stderr_text = [], history = [Started ?a 1, Eof 3],
        children =
          [\<lparr>child_pid = 100, child_dir = ?a, child_argv = [''git'', ''log'', ''-1'']\<rparr>]\<rparr>"
    by code_simp
  then have f: "\<exists>s. main_kqueue Posix ?kargv True [?k1] = Wait s \<and>
        children s =
          [\<lparr>child_pid = 100, child_dir = ?a, child_argv = [''git'', ''log'', ''-1'']\<rparr>] \<and>
        started_dirs (history s) = [?a]"
    using hk[of "[]"] by auto
  show ?thesis using a b c d e f by blast
qed

subsection \<open>The command handed to the children\<close>

text \<open>
  Claim C9. The non-option arguments are split at the first separator: when no directory
  before it is a separator, the directories are what stands before it and the command
  is all that follows, whatever the command holds, later separators included. The
  non-option arguments are what \<^verbatim>\<open>getopt\<close> leaves (\<open>dirs @ x # cmd\<close>); this holds for the
  \<^verbatim>\<open>getopt\<close> of either kind and the separator test of either revision. With POSIX's
  \<^verbatim>\<open>getopt\<close> the arguments are left as they are when the first directory does not look
  like an option; with glibc's, when none of them does. An argument \<^verbatim>\<open>--\<close> in the command
  is consumed by glibc's \<^verbatim>\<open>getopt\<close> as the end of the options and is not among the
  arguments it leaves; the other arguments of the command, later separators \<^verbatim>\<open>-\<close>
  included, are left in their order. The command so found is the argument vector of
  every child that \<^verbatim>\<open>main\<close> forks, and the children are forked for the directories in
  their order.
\<close>

theorem C9_first_separator_splits:
  assumes nd: "\<forall>d \<in> set dirs. \<not> sep d" and sx: "sep x" and d: "dirs \<noteq> []" and c: "cmd \<noteq> []"
  shows
  "split_arguments sep (dirs @ x # cmd) = Inr (dirs, cmd) \<and>
   (getopt_args k (drop 1 argv) = Inr (mj, dirs @ x # cmd) \<longrightarrow>
      parse_options k sep argv = Inr \<lparr>max_jobs = mj, directories = dirs, command = cmd\<rparr>) \<and>
   (\<not> option_like (hd dirs) \<longrightarrow>
      parse_options Posix sep (prog # dirs @ x # cmd) =
        Inr \<lparr>max_jobs = 1, directories = dirs, command = cmd\<rparr>) \<and>
   ((\<forall>y \<in> set (dirs @ x # cmd). \<not> option_like y) \<longrightarrow>
      parse_options k sep (prog # dirs @ x # cmd) =
        Inr \<lparr>max_jobs = 1, directories = dirs, command = cmd\<rparr>) \<and>
   ((\<forall>y \<in> set (dirs @ x # pre). \<not> option_like y) \<and> cmd = pre @ post \<longrightarrow>
      parse_options Gnu sep (prog # dirs @ x # pre @ ''--'' # post) =
        Inr \<lparr>max_jobs = 1, directories = dirs, command = cmd\<rparr>) \<and>
   (sep = is_separator_select \<and> getopt_args k (drop 1 argv) = Inr (mj, dirs @ x # cmd) \<longrightarrow>
      holds (\<lambda>s. list_all (\<lambda>c. child_argv c = cmd) (children s) \<and>
                 map child_dir (children s) = take (directory s) dirs)
        (main_select k argv envs)) \<and>
   (sep = is_separator_kqueue \<and> getopt_args k (drop 1 argv) = Inr (mj, dirs @ x # cmd) \<longrightarrow>
      holds (\<lambda>s. list_all (\<lambda>c. child_argv c = cmd) (children s) \<and>
                 map child_dir (children s) = take (directory s) dirs)
        (main_kqueue k argv kq kenvs))"
proof -
  let ?opts = "\<lparr>max_jobs = mj, directories = dirs, command = cmd\<rparr>"
  obtain d0 ds where dd: "dirs = d0 # ds" using d by (cases dirs) auto
  have sp: "split_arguments sep (dirs @ x # cmd) = Inr (dirs, cmd)"
    by (rule split_arguments_first_separator[OF nd sx d c])
  have po: "getopt_args k (drop 1 argv) = Inr (mj, dirs @ x # cmd) \<longrightarrow>
      parse_options k sep argv = Inr ?opts"
    using parse_options_split[OF _ sp] by blast
  have px: "\<not> option_like (hd dirs) \<longrightarrow>
      parse_options Posix sep (prog # dirs @ x # cmd) =
        Inr \<lparr>max_jobs = 1, directories = dirs, command = cmd\<rparr>"
    using parse_options_split[OF _ sp, of Posix "prog # dirs @ x # cmd" 1]
      getopt_args_posix_operand[of d0 "ds @ x # cmd"] dd by simp
  have pa: "(\<forall>y \<in> set (dirs @ x # cmd). \<not> option_like y) \<longrightarrow>
      parse_options k sep (prog # dirs @ x # cmd) =
        Inr \<lparr>max_jobs = 1, directories = dirs, command = cmd\<rparr>"
    using parse_options_split[OF _ sp, of k "prog # dirs @ x # cmd" 1]
      getopt_args_operands[of "dirs @ x # cmd" k] by simp
  have pg: "(\<forall>y \<in> set (dirs @ x # pre). \<not> option_like y) \<and> cmd = pre @ post \<longrightarrow>
      parse_options Gnu sep (prog # dirs @ x # pre @ ''--'' # post) =
        Inr \<lparr>max_jobs = 1, directories = dirs, command = cmd\<rparr>"
    using parse_options_split[OF _ sp, of Gnu "prog # dirs @ x # pre @ ''--'' # post" 1]
      getopt_args_gnu_end_of_options[of "dirs @ x # pre" post] by simp
  have ms: "sep = is_separator_select \<and> getopt_args k (drop 1 argv) = Inr (mj, dirs @ x # cmd) \<longrightarrow>
      holds (\<lambda>s. list_all (\<lambda>c. child_argv c = cmd) (children s) \<and>
                 map child_dir (children s) = take (directory s) dirs)
        (main_select k argv envs)"
  proof
    assume h: "sep = is_separator_select \<and>
      getopt_args k (drop 1 argv) = Inr (mj, dirs @ x # cmd)"
    then have "parse_options k is_separator_select argv = Inr ?opts" using po by simp
    from main_select_child_argv[OF this, of envs]
    show "holds (\<lambda>s. list_all (\<lambda>c. child_argv c = cmd) (children s) \<and>
                 map child_dir (children s) = take (directory s) dirs)
        (main_select k argv envs)"
      by simp
  qed
  have mk: "sep = is_separator_kqueue \<and> getopt_args k (drop 1 argv) = Inr (mj, dirs @ x # cmd) \<longrightarrow>
      holds (\<lambda>s. list_all (\<lambda>c. child_argv c = cmd) (children s) \<and>
                 map child_dir (children s) = take (directory s) dirs)
        (main_kqueue k argv kq kenvs)"
  proof
    assume h: "sep = is_separator_kqueue \<and>
      getopt_args k (drop 1 argv) = Inr (mj, dirs @ x # cmd)"
    then have "parse_options k is_separator_kqueue argv = Inr ?opts" using po by simp
    from main_kqueue_child_argv[OF this, of kq kenvs]
    show "holds (\<lambda>s. list_all (\<lambda>c. child_argv c = cmd) (children s) \<and>
                 map child_dir (children s) = take (directory s) dirs)
        (main_kqueue k argv kq kenvs)"
      by simp
  qed
  show ?thesis using sp po px pa pg ms mk by blast
qed

theorem C9_first_separator_splits_witness:
  "parse_options Posix is_separator_select
       [''within'', ''a'', ''b'', ''-'', ''echo'', ''-'', ''--'', ''x''] =
     Inr \<lparr>max_jobs = 1, directories = [''a'', ''b''],
          command = [''echo'', ''-'', ''--'', ''x'']\<rparr> \<and>
   parse_options Gnu is_separator_select
       [''within'', ''a'', ''b'', ''-'', ''echo'', ''-'', ''x''] =
     Inr \<lparr>max_jobs = 1, directories = [''a'', ''b''], command = [''echo'', ''-'', ''x'']\<rparr> \<and>
   parse_options Gnu is_separator_select
       [''within'', ''a'', ''b'', ''-'', ''echo'', ''-'', ''--'', ''x''] =
     Inr \<lparr>max_jobs = 1, directories = [''a'', ''b''], command = [''echo'', ''-'', ''x'']\<rparr> \<and>
   parse_options Posix is_separator_kqueue
       [''within'', ''a'', ''b'', ''--'', ''echo'', ''--'', ''x''] =
     Inr \<lparr>max_jobs = 1, directories = [''a'', ''b''], command = [''echo'', ''--'', ''x'']\<rparr> \<and>
   (\<exists>s. main_select Gnu
          [''within'', ''-j'', ''2'', ''a'', ''b'', ''-'', ''echo'', ''-'', ''x'']
          [\<lparr>jobs = [Forked 100 3 4 (PiperAt 1) (PiperAt 2),
                    Forked 101 5 6 (PiperAt 3) (PiperAt 4)],
            selected = SelectFails EINTR, reads = [], waits = [WaitNone]\<rparr>] = Wait s \<and>
        map child_argv (children s) = [[''echo'', ''-'', ''x''], [''echo'', ''-'', ''x'']] \<and>
        map child_dir (children s) = [''a'', ''b'']) \<and>
   (\<exists>s. main_kqueue Posix [''within'', ''a'', ''b'', ''--'', ''echo'', ''--'', ''x''] True
          [\<lparr>jobs_k = [ForkedK 100 3 4 (PiperAtK 1) (PiperAtK 2)], event_k = ProcExit 100 0,
            malloc_k = True, read_k = ReadBytes [], delete_k = True\<rparr>,
           \<lparr>jobs_k = [ForkedK 101 5 6 (PiperAtK 3) (PiperAtK 4)], event_k = ProcExit 101 0,
            malloc_k = True, read_k = ReadBytes [], delete_k = True\<rparr>] = Ok s \<and>
        map child_argv (children s) = [[''echo'', ''--'', ''x''], [''echo'', ''--'', ''x'']] \<and>
        map child_dir (children s) = [''a'', ''b''])"
proof -
  let ?dirs = "[''a'', ''b'']"
  let ?sargv = "[''within'', ''-j'', ''2'', ''a'', ''b'', ''-'', ''echo'', ''-'', ''x'']"
  let ?kargv = "[''within'', ''a'', ''b'', ''--'', ''echo'', ''--'', ''x'']"
  let ?senvs = "[\<lparr>jobs = [Forked 100 3 4 (PiperAt 1) (PiperAt 2),
                    Forked 101 5 6 (PiperAt 3) (PiperAt 4)],
            selected = SelectFails EINTR, reads = [], waits = [WaitNone]\<rparr>]"
  let ?kenvs = "[\<lparr>jobs_k = [ForkedK 100 3 4 (PiperAtK 1) (PiperAtK 2)], event_k = ProcExit 100 0,
            malloc_k = True, read_k = ReadBytes [], delete_k = True\<rparr>,
           \<lparr>jobs_k = [ForkedK 101 5 6 (PiperAtK 3) (PiperAtK 4)], event_k = ProcExit 101 0,
            malloc_k = True, read_k = ReadBytes [], delete_k = True\<rparr>]"
  have nd: "\<forall>d \<in> set ?dirs. \<not> is_separator_select d" "\<forall>d \<in> set ?dirs. \<not> is_separator_kqueue d"
    and sx: "is_separator_select ''-''" "is_separator_kqueue ''--''"
    by (simp_all add: is_separator_select_def is_separator_kqueue_def)
  note s1 = C9_first_separator_splits[OF nd(1) sx(1), of "[''echo'', ''-'', ''--'', ''x'']"]
  note s2 = C9_first_separator_splits[OF nd(1) sx(1), of "[''echo'', ''-'', ''x'']"]
  note k1 = C9_first_separator_splits[OF nd(2) sx(2), of "[''echo'', ''--'', ''x'']"]
  have a: "parse_options Posix is_separator_select
       [''within'', ''a'', ''b'', ''-'', ''echo'', ''-'', ''--'', ''x''] =
     Inr \<lparr>max_jobs = 1, directories = ?dirs, command = [''echo'', ''-'', ''--'', ''x'']\<rparr>"
    using s1[where prog = "''within''"] by (simp add: option_like_def)
  have b: "parse_options Gnu is_separator_select
       [''within'', ''a'', ''b'', ''-'', ''echo'', ''-'', ''x''] =
     Inr \<lparr>max_jobs = 1, directories = ?dirs, command = [''echo'', ''-'', ''x'']\<rparr>"
    using s2[where prog = "''within''" and k = Gnu] by (simp add: option_like_def)
  have c: "parse_options Gnu is_separator_select
       [''within'', ''a'', ''b'', ''-'', ''echo'', ''-'', ''--'', ''x''] =
     Inr \<lparr>max_jobs = 1, directories = ?dirs, command = [''echo'', ''-'', ''x'']\<rparr>"
    using s2[where prog = "''within''" and pre = "[''echo'', ''-'']" and post = "[''x'']"]
    by (simp add: option_like_def)
  have d: "parse_options Posix is_separator_kqueue ?kargv =
     Inr \<lparr>max_jobs = 1, directories = ?dirs, command = [''echo'', ''--'', ''x'']\<rparr>"
    using k1[where prog = "''within''"] by (simp add: option_like_def)
  have gs: "getopt_args Gnu (drop 1 ?sargv) = Inr (2, ?dirs @ ''-'' # [''echo'', ''-'', ''x''])"
    by code_simp
  have gk: "getopt_args Posix (drop 1 ?kargv) = Inr (1, ?dirs @ ''--'' # [''echo'', ''--'', ''x''])"
    by code_simp
  have hs: "holds (\<lambda>s. list_all (\<lambda>c. child_argv c = [''echo'', ''-'', ''x'']) (children s) \<and>
                 map child_dir (children s) = take (directory s) ?dirs)
        (main_select Gnu ?sargv ?senvs)"
    using s2[where k = Gnu and argv = ?sargv and mj = 2 and envs = ?senvs] gs by blast
  have hk: "holds (\<lambda>s. list_all (\<lambda>c. child_argv c = [''echo'', ''--'', ''x'']) (children s) \<and>
                 map child_dir (children s) = take (directory s) ?dirs)
        (main_kqueue Posix ?kargv True ?kenvs)"
    using k1[where k = Posix and argv = ?kargv and mj = 1 and kenvs = ?kenvs and kq = True] gk
    by blast
  have rs: "main_select Gnu ?sargv ?senvs =
      Wait \<lparr>directory = 2, num_jobs = 2, status = 0,
        pipers =
          [(4, \<lparr>in_fd = 6, out_file = Stderr, prefix = ''b'', newline = True\<rparr>),
           (3, \<lparr>in_fd = 5, out_file = Stdout, prefix = ''b'', newline = True\<rparr>),
           (2, \<lparr>in_fd = 4, out_file = Stderr, prefix = ''a'', newline = True\<rparr>),
           (1, \<lparr>in_fd = 3, out_file = Stdout, prefix = ''a'', newline = True\<rparr>)],
        kq_procs = [], allocated = [4, 3, 2, 1], open_pipes = [6, 5, 4, 3],
        stdout_text = [], stderr_text = [],
        history = [Started ''a'' 1, Started ''b'' 2],
        children =
          [\<lparr>child_pid = 100, child_dir = ''a'', child_argv = [''echo'', ''-'', ''x'']\<rparr>,
           \<lparr>child_pid = 101, child_dir = ''b'', child_argv = [''echo'', ''-'', ''x'']\<rparr>]\<rparr>"
    by code_simp
  have rk: "main_kqueue Posix ?kargv True ?kenvs =
      Ok \<lparr>directory = 2, num_jobs = 0, status = 0,
        pipers =
          [(4, \<lparr>in_fd = 6, out_file = Stderr, prefix = ''b'', newline = True\<rparr>),
           (3, \<lparr>in_fd = 5, out_file = Stdout, prefix = ''b'', newline = True\<rparr>),
           (2, \<lparr>in_fd = 4, out_file = Stderr, prefix = ''a'', newline = True\<rparr>),
           (1, \<lparr>in_fd = 3, out_file = Stdout, prefix = ''a'', newline = True\<rparr>)],
        kq_procs = [], allocated = [4, 3, 2, 1], open_pipes = [6, 5, 4, 3],
        stdout_text = [], stderr_text = [],
        history = [Started ''a'' 1, Reaped 0 0, Started ''b'' 1, Reaped 0 0],
        children =
          [\<lparr>child_pid = 100, child_dir = ''a'', child_argv = [''echo'', ''--'', ''x'']\<rparr>,
           \<lparr>child_pid = 101, child_dir = ''b'', child_argv = [''echo'', ''--'', ''x'']\<rparr>]\<rparr>"
    by code_simp
  have e: "\<exists>s. main_select Gnu ?sargv ?senvs = Wait s \<and>
        map child_argv (children s) = [[''echo'', ''-'', ''x''], [''echo'', ''-'', ''x'']] \<and>
        map child_dir (children s) = ?dirs"
    using hs rs by simp
  have f: "\<exists>s. main_kqueue Posix ?kargv True ?kenvs = Ok s \<and>
        map child_argv (children s) = [[''echo'', ''--'', ''x''], [''echo'', ''--'', ''x'']] \<and>
        map child_dir (children s) = ?dirs"
    using hk rk by simp
  show ?thesis using a b c d e f by blast
qed

end
